theory Spec2Isabelle
  imports Main
begin

section \<open>The ScrollView container of cview\<close>

text \<open>
  A shallow embedding of \<^verbatim>\<open>ScrollView\<close> (the scrolling container of the cview
  toolkit): its item list, its scroll offset, the layout pass of \<^verbatim>\<open>Draw\<close>, focus
  delegation and mouse routing.

  Conventions of the embedding:
  \<^item> Go's \<^verbatim>\<open>int\<close> is the 64-bit signed integer. Its values are modelled as
    \<^typ>\<open>int\<close>s of that range, and every \<open>+\<close>, \<open>-\<close>, \<open>++\<close> and \<open>--\<close> of the source
    that can leave the range is followed by \<open>wrap\<close>, the two's-complement wrap-around.
  \<^item> A non-nil \<^verbatim>\<open>Primitive\<close> interface value is the identity of the object it points
    to (a natural number); the interface value itself is an \<^typ>\<open>nat option\<close>, with
    \<^term>\<open>None\<close> for \<^verbatim>\<open>nil\<close>. \<^verbatim>\<open>==\<close> on interface values is equality of options.
  \<^item> A run-time panic is a value \<^term>\<open>Inl e\<close> of a sum type.
  \<^item> The mutex of the view is not modelled: every operation is one atomic step.
\<close>

subsection \<open>Data\<close>

type_synonym Primitive = nat

text \<open>\<^verbatim>\<open>scrollItem\<close>: layout options of one item.\<close>

record scrollItem =
  Item :: "Primitive option"
  FixedSize :: int
  Focus :: bool

text \<open>
  Modelled from the spec: the type \<^verbatim>\<open>ScrollBarVisibility\<close> is declared outside the
  files at hand; the spec names its three modes.
\<close>

datatype ScrollBarVisibility = ScrollBarNever | ScrollBarAuto | ScrollBarAlways

text \<open>A rectangle is \<open>(x, y, width, height)\<close>.\<close>

type_synonym rect = "int \<times> int \<times> int \<times> int"

text \<open>
  Modelled from the spec: \<^verbatim>\<open>Box\<close> is declared outside the files at hand. The model
  keeps the three pieces of its state that \<^verbatim>\<open>ScrollView\<close> reads or writes: the
  visibility flag, the rectangle set by \<^verbatim>\<open>SetRect\<close>, and the focus flag.
\<close>

record Box =
  visible :: bool
  rect :: rect
  hasFocus :: bool

record ScrollView =
  box :: Box
  items :: "scrollItem list"
  fullScreen :: bool
  scrollBarVisibility :: ScrollBarVisibility
  heightOffset :: int

text \<open>
  Modelled from the spec: \<^verbatim>\<open>MouseAction\<close> is declared outside the files at hand.
  The two wheel actions are the ones \<^verbatim>\<open>ScrollView\<close> tells apart; every other action
  (move, clicks, drags, horizontal wheel) is \<open>MouseOther n\<close>.
\<close>

datatype MouseAction = MouseScrollUp | MouseScrollDown | MouseOther nat

text \<open>Of a \<^verbatim>\<open>tcell.EventMouse\<close> the view reads the position only.\<close>

record EventMouse =
  Position :: "int \<times> int"

text \<open>
  What the view calls but does not define is a parameter of the model:
  \<^item> \<open>GetInnerRect\<close> and \<open>InRect\<close> are the methods of \<^verbatim>\<open>Box\<close> of these names;
  \<^item> \<open>HasFocus p\<close> is \<^verbatim>\<open>p.GetFocusable().HasFocus()\<close> of the child \<open>p\<close>;
  \<^item> \<open>ChildMouseHandler p\<close> is \<^verbatim>\<open>p.MouseHandler()\<close> of the child \<open>p\<close>, returning
    \<open>(consumed, capture)\<close>;
  \<^item> \<open>ScreenSize\<close> is \<^verbatim>\<open>screen.Size()\<close>;
  \<^item> \<open>CursorOf c n d\<close> is the floating-point expression
    \<^verbatim>\<open>int(float64(c) * (float64(n) / float64(d)))\<close>, whose IEEE arithmetic and
    conversion are not modelled.
\<close>

record Env =
  GetInnerRect :: "Box \<Rightarrow> rect"
  InRect :: "Box \<Rightarrow> int \<times> int \<Rightarrow> bool"
  HasFocus :: "Primitive \<Rightarrow> bool"
  ChildMouseHandler :: "Primitive \<Rightarrow> MouseAction \<Rightarrow> EventMouse \<Rightarrow> bool \<times> Primitive option"
  ScreenSize :: "int \<times> int"
  CursorOf :: "int \<Rightarrow> int \<Rightarrow> int \<Rightarrow> int"

datatype error = NilPointerDereference | SliceBoundsOutOfRange

subsection \<open>Machine integers\<close>

text \<open>
  The value a 64-bit signed integer holds after an addition or subtraction whose
  mathematical result is \<open>n\<close>, and the range of such integers.
\<close>

definition wrap :: "int \<Rightarrow> int" where
  "wrap n = (n + 2 ^ 63) mod 2 ^ 64 - 2 ^ 63"

definition inRange :: "int \<Rightarrow> bool" where
  "inRange n = (- (2 ^ 63) \<le> n \<and> n < 2 ^ 63)"

subsection \<open>Mutation of the item list\<close>

text \<open>\<^verbatim>\<open>GetItems\<close>: the primitives of all items, in order.\<close>

definition GetItems :: "ScrollView \<Rightarrow> Primitive option list" where
  "GetItems f = map Item (items f)"

text \<open>
  \<^verbatim>\<open>AddItem\<close>: a nil primitive is replaced by a new Box made invisible. \<open>newBox\<close> is
  the identity of the Box that \<^verbatim>\<open>NewBox()\<close> returns in that case.
\<close>

definition AddItem :: "Primitive \<Rightarrow> Primitive option \<Rightarrow> int \<Rightarrow> bool \<Rightarrow> ScrollView \<Rightarrow> ScrollView" where
  "AddItem newBox item fixedSize focus f =
     (let item' = (if item = None then Some newBox else item)
      in f\<lparr>items := items f @ [\<lparr>Item = item', FixedSize = fixedSize, Focus = focus\<rparr>]\<rparr>)"

text \<open>
  \<^verbatim>\<open>AddItemAtIndex\<close>: the slice expressions \<^verbatim>\<open>f.items[:index]\<close> and
  \<^verbatim>\<open>f.items[index:]\<close> panic for an index outside \<open>0..len\<close>.
\<close>

definition AddItemAtIndex :: "int \<Rightarrow> Primitive option \<Rightarrow> int \<Rightarrow> bool \<Rightarrow> ScrollView \<Rightarrow> error + ScrollView" where
  "AddItemAtIndex index item fixedSize focus f =
     (let newItem = \<lparr>Item = item, FixedSize = fixedSize, Focus = focus\<rparr>
      in if index = 0 then Inr (f\<lparr>items := newItem # items f\<rparr>)
         else if index < 0 \<or> index > int (length (items f)) then Inl SliceBoundsOutOfRange
         else Inr (f\<lparr>items := take (nat index) (items f) @ (newItem # drop (nat index) (items f))\<rparr>))"

text \<open>
  \<^verbatim>\<open>RemoveItem\<close>: the loop runs \<open>index\<close> from \<open>len - 1\<close> down to \<open>0\<close> and cuts the
  entry at \<open>index\<close> out of the slice when its primitive is \<open>p\<close>.
\<close>

function removeLoop :: "Primitive option \<Rightarrow> int \<Rightarrow> scrollItem list \<Rightarrow> scrollItem list" where
  "removeLoop p index its =
     (if index \<ge> 0
      then removeLoop p (index - 1)
             (if Item (its ! nat index) = p
              then take (nat index) its @ drop (nat (index + 1)) its
              else its)
      else its)"
  by pat_completeness auto
termination
  by (relation "measure (\<lambda>(p, index, its). nat (index + 1))") auto

declare removeLoop.simps [simp del]

definition RemoveItem :: "Primitive option \<Rightarrow> ScrollView \<Rightarrow> ScrollView" where
  "RemoveItem p f = f\<lparr>items := removeLoop p (int (length (items f)) - 1) (items f)\<rparr>"

text \<open>\<^verbatim>\<open>ResizeItem\<close>: every item of primitive \<open>p\<close> gets the new size, in place.\<close>

definition ResizeItem :: "Primitive option \<Rightarrow> int \<Rightarrow> ScrollView \<Rightarrow> ScrollView" where
  "ResizeItem p fixedSize f =
     f\<lparr>items := map (\<lambda>item. if Item item = p then item\<lparr>FixedSize := fixedSize\<rparr> else item) (items f)\<rparr>"

text \<open>\<^verbatim>\<open>ScrollTo\<close> stores the height; the width is ignored.\<close>

definition ScrollTo :: "int \<Rightarrow> int \<Rightarrow> ScrollView \<Rightarrow> ScrollView" where
  "ScrollTo height width f = f\<lparr>heightOffset := height\<rparr>"

subsection \<open>Draw\<close>

text \<open>
  The quantities \<^verbatim>\<open>Draw\<close> computes before its loop, one definition per local
  variable of the source.
\<close>

text \<open>The Box after the full-screen step: \<^verbatim>\<open>f.SetRect(0, 0, width, height)\<close>.\<close>

definition frame :: "Env \<Rightarrow> ScrollView \<Rightarrow> Box" where
  "frame env f =
     (if fullScreen f
      then (case ScreenSize env of (width, height) \<Rightarrow> (box f)\<lparr>rect := (0, 0, width, height)\<rparr>)
      else box f)"

text \<open>\<^verbatim>\<open>visibleheight\<close>: the height of the inner rectangle, the viewport extent.\<close>

definition visibleheight :: "Env \<Rightarrow> ScrollView \<Rightarrow> int" where
  "visibleheight env f = (case GetInnerRect env (frame env f) of (x, y, width, h) \<Rightarrow> h)"

text \<open>
  \<^verbatim>\<open>contentHeight\<close>: the loop \<^verbatim>\<open>contentHeight += item.FixedSize\<close> over the items,
  the content extent.
\<close>

definition contentHeight :: "ScrollView \<Rightarrow> int" where
  "contentHeight f = foldl (\<lambda>c item. wrap (c + FixedSize item)) 0 (items f)"

text \<open>The value of \<^verbatim>\<open>f.heightOffset\<close> after the clamp in front of the loop.\<close>

definition clampedOffset :: "Env \<Rightarrow> ScrollView \<Rightarrow> int" where
  "clampedOffset env f =
     (case GetInnerRect env (frame env f) of (x, y, width, vh) \<Rightarrow>
        if contentHeight f > vh \<and>
           wrap (wrap (y + heightOffset f) + vh) > wrap (y + contentHeight f)
        then wrap (contentHeight f - vh)
        else heightOffset f)"

definition showVerticalScrollBar :: "Env \<Rightarrow> ScrollView \<Rightarrow> bool" where
  "showVerticalScrollBar env f =
     (scrollBarVisibility f = ScrollBarAlways \<or>
      (scrollBarVisibility f = ScrollBarAuto \<and> contentHeight f > visibleheight env f))"

text \<open>
  The loop over the items. Its arguments are the loop's read-only values (\<open>x\<close>, \<open>y\<close>,
  the width left for the items, the clamped offset, the scrollbar decision) and its
  three running variables \<open>pos\<close>, \<open>posScrolled\<close> and \<open>firstVisibleY\<close>. It returns, per
  item, the rectangle given to it by \<^verbatim>\<open>SetRect\<close> (\<^term>\<open>None\<close> for an item that is
  skipped), the children drawn at once, the children whose \<^verbatim>\<open>Draw\<close> is deferred, and
  the final \<open>pos\<close> and \<open>firstVisibleY\<close>. \<^verbatim>\<open>item.Item.SetRect\<close> on a nil interface value
  panics.
\<close>

record LoopResult =
  placed :: "rect option list"
  drawnNow :: "Primitive list"
  deferredDraws :: "Primitive list"
  endPos :: int
  endFirstVisibleY :: int

fun drawItems :: "(Primitive \<Rightarrow> bool) \<Rightarrow> int \<Rightarrow> int \<Rightarrow> int \<Rightarrow> int \<Rightarrow> bool \<Rightarrow>
    int \<Rightarrow> int \<Rightarrow> int \<Rightarrow> scrollItem list \<Rightarrow> error + LoopResult" where
  "drawItems focused x y width off show pos posScrolled firstVisibleY [] =
     Inr \<lparr>placed = [], drawnNow = [], deferredDraws = [], endPos = pos,
          endFirstVisibleY = firstVisibleY\<rparr>"
| "drawItems focused x y width off show pos posScrolled firstVisibleY (item # rest) =
     (let size = FixedSize item in
      if posScrolled < wrap (y + off) \<and> show
      then (case drawItems focused x y width off show pos (wrap (posScrolled + size))
                   firstVisibleY rest of
              Inl e \<Rightarrow> Inl e
            | Inr r \<Rightarrow> Inr (r\<lparr>placed := None # placed r\<rparr>))
      else
        (let firstVisibleY' = (if firstVisibleY = - 1 then posScrolled else firstVisibleY) in
         case Item item of
           None \<Rightarrow> Inl NilPointerDereference
         | Some p \<Rightarrow>
            (case drawItems focused x y width off show (wrap (pos + size))
                    (wrap (posScrolled + size)) firstVisibleY' rest of
               Inl e \<Rightarrow> Inl e
             | Inr r \<Rightarrow>
                 Inr (r\<lparr>placed := Some (x, pos, width, size) # placed r,
                        drawnNow := (if focused p then drawnNow r else p # drawnNow r),
                        deferredDraws := (if focused p then p # deferredDraws r
                                          else deferredDraws r)\<rparr>))))"

text \<open>
  The fill loop: for every row \<open>i\<close> from \<open>pos\<close> to \<open>y + visibleheight - 1\<close> and every
  \<open>xx\<close> from \<open>0\<close> while \<open>x + xx < width\<close>, one call
  \<^verbatim>\<open>screen.SetContent(x, i, ' ', nil, style)\<close> with the style of the primitive
  background colour. A call is recorded by the cell \<open>(column, row)\<close> it writes. (Both
  counters stop before their \<open>++\<close> can leave the range, an inner loop of more than
  \<open>2^63\<close> rounds apart.)
\<close>

definition fillRemaining :: "int \<Rightarrow> int \<Rightarrow> int \<Rightarrow> int \<Rightarrow> int \<Rightarrow> (int \<times> int) list" where
  "fillRemaining x y width vh pos =
     (if pos < wrap (y + vh)
      then concat (map (\<lambda>i. map (\<lambda>xx. (x, i)) [0 .. width - x - 1])
                     [pos .. wrap (y + vh) - 1])
      else [])"

text \<open>
  The result of \<^verbatim>\<open>Draw\<close>: the view with its updated fields, the scrollbar decision,
  the rectangle of every item, the children in the order their \<^verbatim>\<open>Draw\<close> runs
  (deferred calls run last, the latest first), the cells written by the fill loop,
  and the calls of \<^verbatim>\<open>RenderScrollBar\<close> as \<open>(column, row, cursor, printed)\<close>.
\<close>

record DrawResult =
  view :: ScrollView
  scrollBarShown :: bool
  rects :: "rect option list"
  drawOrder :: "Primitive list"
  cells :: "(int \<times> int) list"
  bar :: "(int \<times> int \<times> int \<times> int) list"

text \<open>
  The scrollbar cursor: the floating-point expression, then the clamp from above
  (\<^verbatim>\<open>if cursor > contentHeight\<close>).
\<close>

definition scrollCursor :: "Env \<Rightarrow> int \<Rightarrow> int \<Rightarrow> int \<Rightarrow> int" where
  "scrollCursor env content firstOffset divisor =
     (let cursor = CursorOf env content firstOffset divisor
      in if cursor > content then content else cursor)"

text \<open>
  \<^verbatim>\<open>Draw\<close>. An invisible view returns at once. Not modelled: what \<^verbatim>\<open>Box.Draw\<close>
  writes for the view's own decoration, what the children write in their \<^verbatim>\<open>Draw\<close>
  (only the order of the calls is kept), and the colour and focus arguments of
  \<^verbatim>\<open>RenderScrollBar\<close>. A panic in the loop is the result \<^term>\<open>Inl e\<close>.
\<close>

definition Draw :: "Env \<Rightarrow> ScrollView \<Rightarrow> error + DrawResult" where
  "Draw env f =
     (if \<not> visible (box f)
      then Inr \<lparr>view = f, scrollBarShown = False, rects = [], drawOrder = [], cells = [],
                bar = []\<rparr>
      else
        (case GetInnerRect env (frame env f) of (x, y, width0, vh) \<Rightarrow>
           let off = clampedOffset env f;
               show = showVerticalScrollBar env f;
               width = (if width0 > 0 \<and> show then width0 - 1 else width0)
           in case drawItems (HasFocus env) x y width off show y y (- 1) (items f) of
                Inl e \<Rightarrow> Inl e
              | Inr l \<Rightarrow>
                  Inr \<lparr>view = f\<lparr>box := frame env f, heightOffset := off\<rparr>,
                       scrollBarShown = show,
                       rects = placed l,
                       drawOrder = drawnNow l @ rev (deferredDraws l),
                       cells = fillRemaining x y width vh (endPos l),
                       bar = (if show
                              then map (\<lambda>printed.
                                     (wrap (x + width), wrap (y + printed),
                                      scrollCursor env (contentHeight f)
                                        (wrap (endFirstVisibleY l - y))
                                        (wrap (contentHeight f - vh)),
                                      printed))
                                     [0 .. vh - 1]
                              else [])\<rparr>))"

subsection \<open>Focus\<close>

text \<open>
  \<^verbatim>\<open>Focus\<close> (named \<open>ScrollView_Focus\<close> here, \<open>Focus\<close> being the field of
  \<^verbatim>\<open>scrollItem\<close>): the scan over the items. The result lists the primitives the
  \<open>delegate\<close> callback is called with, in call order; the view's own fields stay as
  they are.
\<close>

fun focusScan :: "scrollItem list \<Rightarrow> Primitive list" where
  "focusScan [] = []"
| "focusScan (item # rest) =
     (case Item item of
        None \<Rightarrow> focusScan rest
      | Some p \<Rightarrow> if Focus item then [p] else focusScan rest)"

definition ScrollView_Focus :: "ScrollView \<Rightarrow> Primitive list" where
  "ScrollView_Focus f = focusScan (items f)"

subsection \<open>Mouse handling\<close>

text \<open>
  The loop that passes a mouse event along to the children. \<open>res\<close> is the current value
  of the named results \<open>(consumed, capture)\<close>; the second component of the result lists
  the children whose handler was called, in call order.
\<close>

fun passMouse :: "(Primitive \<Rightarrow> MouseAction \<Rightarrow> EventMouse \<Rightarrow> bool \<times> Primitive option) \<Rightarrow>
    MouseAction \<Rightarrow> EventMouse \<Rightarrow> scrollItem list \<Rightarrow> bool \<times> Primitive option \<Rightarrow>
    (bool \<times> Primitive option) \<times> Primitive list" where
  "passMouse handler action event [] res = (res, [])"
| "passMouse handler action event (item # rest) res =
     (case Item item of
        None \<Rightarrow> passMouse handler action event rest res
      | Some p \<Rightarrow>
          (let res' = handler p action event
           in if fst res' then (res', [p])
              else (case passMouse handler action event rest res' of
                      (final, called) \<Rightarrow> (final, p # called))))"

record MouseResult =
  consumed :: bool
  capture :: "Primitive option"
  called :: "Primitive list"
  after :: ScrollView

text \<open>
  \<^verbatim>\<open>MouseHandler\<close>: the function literal that the method hands to
  \<^verbatim>\<open>WrapMouseHandler\<close> of Box (the wrapper is outside the files at hand).
\<close>

definition MouseHandler :: "Env \<Rightarrow> ScrollView \<Rightarrow> MouseAction \<Rightarrow> EventMouse \<Rightarrow> MouseResult" where
  "MouseHandler env f action event =
     (if \<not> InRect env (box f) (Position event)
      then \<lparr>consumed = False, capture = None, called = [], after = f\<rparr>
      else
        (case action of
           MouseScrollUp \<Rightarrow>
             \<lparr>consumed = True, capture = None, called = [],
              after = f\<lparr>heightOffset :=
                        (if wrap (heightOffset f - 1) < 0 then 0
                         else wrap (heightOffset f - 1))\<rparr>\<rparr>
         | MouseScrollDown \<Rightarrow>
             \<lparr>consumed = True, capture = None, called = [],
              after = f\<lparr>heightOffset := wrap (heightOffset f + 1)\<rparr>\<rparr>
         | MouseOther n \<Rightarrow>
             (case passMouse (ChildMouseHandler env) action event (items f) (False, None) of
                (final, cs) \<Rightarrow>
                  \<lparr>consumed = fst final, capture = snd final, called = cs, after = f\<rparr>)))"

subsection \<open>Notions used in the statements\<close>

text \<open>
  The children \<^verbatim>\<open>Draw\<close> is called on, in item order: the primitives of the items
  that were given a rectangle.
\<close>

fun drawnChildren :: "scrollItem list \<Rightarrow> rect option list \<Rightarrow> Primitive list" where
  "drawnChildren (item # rest) (Some rc # rs) =
     (case Item item of Some p \<Rightarrow> p # drawnChildren rest rs | None \<Rightarrow> drawnChildren rest rs)"
| "drawnChildren (item # rest) (None # rs) = drawnChildren rest rs"
| "drawnChildren _ _ = []"

text \<open>The accumulated position of item \<open>i\<close>: the sizes of the items in front of it.\<close>

definition startOf :: "scrollItem list \<Rightarrow> nat \<Rightarrow> int" where
  "startOf its i = sum_list (map FixedSize (take i its))"

text \<open>The content extent of the spec: the sum of the fixed sizes.\<close>

definition contentExtent :: "ScrollView \<Rightarrow> int" where
  "contentExtent f = sum_list (map FixedSize (items f))"

text \<open>
  The value of the loop variable \<^verbatim>\<open>posScrolled\<close> when the loop of \<^verbatim>\<open>Draw\<close>, started
  at \<open>y\<close>, reaches item \<open>i\<close>; and the loop's skip test for that item.
\<close>

definition posScrolledAt :: "int \<Rightarrow> scrollItem list \<Rightarrow> nat \<Rightarrow> int" where
  "posScrolledAt y its i = foldl (\<lambda>ps item. wrap (ps + FixedSize item)) y (take i its)"

definition skipsItem :: "Env \<Rightarrow> ScrollView \<Rightarrow> nat \<Rightarrow> bool" where
  "skipsItem env f i =
     (case GetInnerRect env (frame env f) of (x, y, width, vh) \<Rightarrow>
        showVerticalScrollBar env f \<and>
        posScrolledAt y (items f) i < wrap (y + clampedOffset env f))"

text \<open>
  No sum in the clamp of \<^verbatim>\<open>Draw\<close> leaves the range: the content extent,
  \<open>y + heightOffset + visibleheight\<close>, \<open>y + contentHeight\<close> and
  \<open>contentHeight - visibleheight\<close>.
\<close>

definition clampInRange :: "Env \<Rightarrow> ScrollView \<Rightarrow> bool" where
  "clampInRange env f =
     (case GetInnerRect env (frame env f) of (x, y, width, vh) \<Rightarrow>
        inRange (contentExtent f) \<and> inRange (y + heightOffset f + vh) \<and>
        inRange (y + contentExtent f) \<and> inRange (contentExtent f - vh))"

text \<open>
  No sum in the skip test of the loop leaves the range, for the offset \<open>off\<close> the loop
  runs with: \<open>y + off\<close> and the accumulated position \<open>y + startOf i\<close> of every item.
\<close>

definition loopInRange :: "Env \<Rightarrow> ScrollView \<Rightarrow> int \<Rightarrow> bool" where
  "loopInRange env f off =
     (case GetInnerRect env (frame env f) of (x, y, width, vh) \<Rightarrow>
        inRange (y + off) \<and> list_all (\<lambda>i. inRange (y + startOf (items f) i)) [0 ..< length (items f)])"

text \<open>The non-nil children of a view, in item order.\<close>

definition children :: "ScrollView \<Rightarrow> Primitive list" where
  "children f = List.map_filter Item (items f)"

text \<open>The spec's \<open>clamp(k, lo, hi)\<close>.\<close>

definition clamp :: "int \<Rightarrow> int \<Rightarrow> int \<Rightarrow> int" where
  "clamp k lo hi = max lo (min k hi)"

subsection \<open>Sample views\<close>

text \<open>
  A concrete environment for the examples: a Box without border or padding (the inner
  rectangle is the rectangle), no focused child, child \<open>2\<close> the only one that consumes
  mouse events, an 80 by 24 screen. \<open>CursorOf\<close> is the cursor expression evaluated in
  exact arithmetic and truncated towards zero, with \<open>0\<close> where the divisor is zero (the
  examples do not depend on that choice).
\<close>

definition sampleEnv :: Env where
  "sampleEnv =
     \<lparr>GetInnerRect = rect,
      InRect = (\<lambda>b (px, py). case rect b of (x, y, w, h) \<Rightarrow>
                  x \<le> px \<and> px < x + w \<and> y \<le> py \<and> py < y + h),
      HasFocus = (\<lambda>p. False),
      ChildMouseHandler = (\<lambda>p action event. (p = 2, if p = 2 then Some p else None)),
      ScreenSize = (80, 24),
      CursorOf = (\<lambda>c n d. if d = 0 then 0 else sgn (c * n) * sgn d * (\<bar>c * n\<bar> div \<bar>d\<bar>))\<rparr>"

text \<open>A visible view of inner width \<open>w\<close> and height \<open>h\<close> at the origin.\<close>

definition sampleView :: "int \<Rightarrow> int \<Rightarrow> ScrollBarVisibility \<Rightarrow> scrollItem list \<Rightarrow> ScrollView" where
  "sampleView w h mode its =
     \<lparr>box = \<lparr>visible = True, rect = (0, 0, w, h), hasFocus = False\<rparr>,
      items = its, fullScreen = False, scrollBarVisibility = mode, heightOffset = 0\<rparr>"

definition sampleItem :: "Primitive \<Rightarrow> int \<Rightarrow> bool \<Rightarrow> scrollItem" where
  "sampleItem p n foc = \<lparr>Item = Some p, FixedSize = n, Focus = foc\<rparr>"

section \<open>Properties\<close>

subsection \<open>Wrap-around\<close>

lemma wrap_id: "inRange n \<Longrightarrow> wrap n = n"
  by (simp add: wrap_def inRange_def)

lemma inRange_wrap: "inRange (wrap n)"
  by (simp add: wrap_def inRange_def)

lemma wrap_add_left: "wrap (wrap a + b) = wrap (a + b)"
proof -
  have "wrap a + b + 2 ^ 63 = (a + 2 ^ 63) mod 2 ^ 64 + b"
    by (simp add: wrap_def)
  then have "(wrap a + b + 2 ^ 63) mod 2 ^ 64 = ((a + 2 ^ 63) mod 2 ^ 64 + b) mod (2 ^ 64 :: int)"
    by (rule arg_cong)
  also have "\<dots> = (a + 2 ^ 63 + b) mod 2 ^ 64"
    by (rule mod_add_left_eq)
  also have "\<dots> = (a + b + 2 ^ 63) mod 2 ^ 64"
    by (rule arg_cong [where f = "\<lambda>v. v mod 2 ^ 64"]) simp
  finally have e: "(wrap a + b + 2 ^ 63) mod 2 ^ 64 = (a + b + 2 ^ 63) mod (2 ^ 64 :: int)" .
  have "wrap (wrap a + b) = (wrap a + b + 2 ^ 63) mod 2 ^ 64 - 2 ^ 63"
    by (rule wrap_def)
  also have "\<dots> = (a + b + 2 ^ 63) mod 2 ^ 64 - 2 ^ 63"
    by (simp only: e)
  also have "\<dots> = wrap (a + b)"
    by (rule wrap_def [symmetric])
  finally show ?thesis .
qed

lemma wrap_sub_nonzero:
  assumes "inRange a" and "inRange b" and "a \<noteq> b"
  shows "wrap (a - b) \<noteq> 0"
proof
  assume "wrap (a - b) = 0"
  then have m: "(a - b + 2 ^ 63) mod 2 ^ 64 = (2 ^ 63 :: int)"
    by (simp add: wrap_def)
  define q where "q = (a - b + 2 ^ 63) div (2 ^ 64 :: int)"
  have "a - b + 2 ^ 63 = 2 ^ 64 * q + (a - b + 2 ^ 63) mod 2 ^ 64"
    unfolding q_def by (rule mult_div_mod_eq [symmetric])
  with m have "a - b = 2 ^ 64 * q" by simp
  then have "(2 ^ 64 :: int) dvd a - b" by simp
  moreover from assms(3) have "a - b \<noteq> 0" by simp
  ultimately have "\<bar>2 ^ 64 :: int\<bar> \<le> \<bar>a - b\<bar>" by (rule dvd_imp_le_int [rotated])
  moreover from assms(1,2) have "\<bar>a - b\<bar> < 2 ^ 64" by (simp add: inRange_def abs_less_iff)
  ultimately show False by simp
qed

lemma foldl_wrap:
  "inRange c \<Longrightarrow>
   foldl (\<lambda>c item. wrap (c + FixedSize item)) c its = wrap (c + sum_list (map FixedSize its))"
proof (induction its arbitrary: c)
  case Nil
  then show ?case by (simp add: wrap_id)
next
  case (Cons item its)
  have "foldl (\<lambda>c item. wrap (c + FixedSize item)) c (item # its) =
        foldl (\<lambda>c item. wrap (c + FixedSize item)) (wrap (c + FixedSize item)) its"
    by simp
  also have "\<dots> = wrap (wrap (c + FixedSize item) + sum_list (map FixedSize its))"
    by (rule Cons.IH [OF inRange_wrap])
  also have "\<dots> = wrap (c + FixedSize item + sum_list (map FixedSize its))"
    by (rule wrap_add_left)
  finally show ?case by (simp add: add.assoc)
qed

lemma contentHeight_wrap: "contentHeight f = wrap (contentExtent f)"
proof -
  have "inRange 0" by (simp add: inRange_def)
  from foldl_wrap [OF this, of "items f"] show ?thesis
    by (simp add: contentHeight_def contentExtent_def)
qed

lemma contentHeight_extent: "inRange (contentExtent f) \<Longrightarrow> contentHeight f = contentExtent f"
  by (simp add: contentHeight_wrap wrap_id)

lemma posScrolledAt_0: "posScrolledAt y its 0 = y"
  by (simp add: posScrolledAt_def)

lemma posScrolledAt_Suc:
  "posScrolledAt y (item # its) (Suc i) = posScrolledAt (wrap (y + FixedSize item)) its i"
  by (simp add: posScrolledAt_def)

lemma posScrolledAt_start:
  assumes "inRange y" and "inRange (y + startOf its i)"
  shows "posScrolledAt y its i = y + startOf its i"
proof -
  from foldl_wrap [OF assms(1), of "take i its"]
  have "posScrolledAt y its i = wrap (y + startOf its i)"
    by (simp add: posScrolledAt_def startOf_def)
  with assms(2) show ?thesis by (simp add: wrap_id)
qed

subsection \<open>The loop of Draw\<close>

lemma drawItems_length:
  "drawItems fc x y w off sh pos ps fv its = Inr r \<Longrightarrow> length (placed r) = length its"
  by (induction its arbitrary: pos ps fv r)
     (auto simp: Let_def split: if_splits sum.splits option.splits)

lemma drawItems_skipped:
  "drawItems fc x y w off sh pos ps fv its = Inr r \<Longrightarrow> i < length its \<Longrightarrow>
   (placed r ! i = None) = (sh \<and> posScrolledAt ps its i < wrap (y + off))"
proof (induction its arbitrary: pos ps fv r i)
  case Nil
  then show ?case by simp
next
  case (Cons item rest)
  show ?case
  proof (cases i)
    case 0
    with Cons.prems show ?thesis
      by (auto simp: Let_def posScrolledAt_0 split: if_splits sum.splits option.splits)
  next
    case (Suc j)
    with Cons.prems have j: "j < length rest" by simp
    from Cons.prems(1) obtain pos' fv' r' where
      rec: "drawItems fc x y w off sh pos' (wrap (ps + FixedSize item)) fv' rest = Inr r'"
      and pl: "placed r ! Suc j = placed r' ! j"
      by (auto simp: Let_def split: if_splits sum.splits option.splits)
    from Cons.IH [OF rec j] pl Suc show ?thesis
      by (simp add: posScrolledAt_Suc)
  qed
qed

lemma drawItems_first_at_pos:
  "drawItems fc x y w off sh pos ps fv its = Inr r \<Longrightarrow> i < length its \<Longrightarrow>
   \<forall>j<i. placed r ! j = None \<Longrightarrow> placed r ! i \<noteq> None \<Longrightarrow>
   placed r ! i = Some (x, pos, w, FixedSize (its ! i))"
proof (induction its arbitrary: pos ps fv r i)
  case Nil
  then show ?case by simp
next
  case (Cons item rest)
  show ?case
  proof (cases "ps < wrap (y + off) \<and> sh")
    case True
    with Cons.prems(1) have "\<exists>r'. drawItems fc x y w off sh pos (wrap (ps + FixedSize item)) fv rest
          = Inr r' \<and> placed r = None # placed r'"
      by (auto simp: Let_def split: sum.splits)
    then obtain r' where
      rec: "drawItems fc x y w off sh pos (wrap (ps + FixedSize item)) fv rest = Inr r'"
      and pl: "placed r = None # placed r'"
      by blast
    from Cons.prems(4) pl obtain j where i: "i = Suc j" by (cases i) auto
    with Cons.prems pl have "j < length rest" "\<forall>k<j. placed r' ! k = None" "placed r' ! j \<noteq> None"
      by auto
    from Cons.IH [OF rec this] pl i show ?thesis by simp
  next
    case False
    with Cons.prems(1) have "\<exists>rs. placed r = Some (x, pos, w, FixedSize item) # rs"
      by (auto simp: Let_def split: sum.splits option.splits)
    then obtain rs where pl: "placed r = Some (x, pos, w, FixedSize item) # rs"
      by blast
    with Cons.prems(3) have "i = 0" by (cases i) auto
    with pl show ?thesis by simp
  qed
qed

lemma drawItems_drawn:
  "drawItems fc x y w off sh pos ps fv its = Inr r \<Longrightarrow>
   drawnNow r = filter (\<lambda>p. \<not> fc p) (drawnChildren its (placed r)) \<and>
   deferredDraws r = filter fc (drawnChildren its (placed r))"
  by (induction its arbitrary: pos ps fv r)
     (auto simp: Let_def split: if_splits sum.splits option.splits)

lemma drawItems_nil_panics:
  "i < length its \<Longrightarrow> Item (its ! i) = None \<Longrightarrow>
   \<not> (sh \<and> posScrolledAt ps its i < wrap (y + off)) \<Longrightarrow>
   drawItems fc x y w off sh pos ps fv its = Inl NilPointerDereference"
proof (induction its arbitrary: pos ps fv i)
  case Nil
  then show ?case by simp
next
  case (Cons item rest)
  show ?case
  proof (cases i)
    case 0
    with Cons.prems show ?thesis by (auto simp: Let_def posScrolledAt_0)
  next
    case (Suc j)
    with Cons.prems have "j < length rest" "Item (rest ! j) = None"
      "\<not> (sh \<and> posScrolledAt (wrap (ps + FixedSize item)) rest j < wrap (y + off))"
      by (auto simp: posScrolledAt_Suc)
    note IH = Cons.IH [OF this]
    show ?thesis
    proof (cases "ps < wrap (y + off) \<and> sh")
      case True
      with IH [of pos fv] show ?thesis by (simp add: Let_def)
    next
      case False
      with IH [of "wrap (pos + FixedSize item)" "if fv = - 1 then ps else fv"] show ?thesis
        by (cases "Item item") (auto simp: Let_def)
    qed
  qed
qed

lemma drawItems_returns:
  "\<forall>item\<in>set its. Item item \<noteq> None \<Longrightarrow> \<exists>r. drawItems fc x y w off sh pos ps fv its = Inr r"
proof (induction its arbitrary: pos ps fv)
  case Nil
  then show ?case by simp
next
  case (Cons item rest)
  then obtain p where p: "Item item = Some p" by auto
  from Cons have rest: "\<forall>item\<in>set rest. Item item \<noteq> None" by simp
  from Cons.IH [OF rest] obtain r1 where
    r1: "drawItems fc x y w off sh pos (wrap (ps + FixedSize item)) fv rest = Inr r1" by blast
  from Cons.IH [OF rest] obtain r2 where
    r2: "drawItems fc x y w off sh (wrap (pos + FixedSize item)) (wrap (ps + FixedSize item))
           (if fv = - 1 then ps else fv) rest = Inr r2" by blast
  show ?case
  proof (cases "ps < wrap (y + off) \<and> sh")
    case True
    with r1 show ?thesis by (simp add: Let_def)
  next
    case False
    with r2 show ?thesis by (auto simp: Let_def p)
  qed
qed

subsection \<open>Draw as a whole\<close>

text \<open>What a normal return of \<^verbatim>\<open>Draw\<close> on a visible view consists of.\<close>

lemma Draw_Inr:
  assumes "visible (box f)" and "Draw env f = Inr r"
  obtains x y width0 vh l where
    "GetInnerRect env (frame env f) = (x, y, width0, vh)"
    "drawItems (HasFocus env) x y
       (if width0 > 0 \<and> showVerticalScrollBar env f then width0 - 1 else width0)
       (clampedOffset env f) (showVerticalScrollBar env f) y y (- 1) (items f) = Inr l"
    "view r = f\<lparr>box := frame env f, heightOffset := clampedOffset env f\<rparr>"
    "scrollBarShown r = showVerticalScrollBar env f"
    "rects r = placed l"
    "drawOrder r = drawnNow l @ rev (deferredDraws l)"
    "cells r = fillRemaining x y
       (if width0 > 0 \<and> showVerticalScrollBar env f then width0 - 1 else width0) vh (endPos l)"
    "bar r = (if showVerticalScrollBar env f
              then map (\<lambda>printed.
                     (wrap (x + (if width0 > 0 \<and> showVerticalScrollBar env f
                                 then width0 - 1 else width0)),
                      wrap (y + printed),
                      scrollCursor env (contentHeight f) (wrap (endFirstVisibleY l - y))
                        (wrap (contentHeight f - vh)),
                      printed)) [0 .. vh - 1]
              else [])"
proof -
  obtain x y width0 vh where g: "GetInnerRect env (frame env f) = (x, y, width0, vh)"
    by (cases "GetInnerRect env (frame env f)") auto
  let ?w = "if width0 > 0 \<and> showVerticalScrollBar env f then width0 - 1 else width0"
  from assms g obtain l where
    l: "drawItems (HasFocus env) x y ?w (clampedOffset env f) (showVerticalScrollBar env f)
          y y (- 1) (items f) = Inr l"
    by (cases "drawItems (HasFocus env) x y ?w (clampedOffset env f)
                 (showVerticalScrollBar env f) y y (- 1) (items f)")
       (simp_all add: Draw_def Let_def)
  from assms g l have
    "r = \<lparr>view = f\<lparr>box := frame env f, heightOffset := clampedOffset env f\<rparr>,
          scrollBarShown = showVerticalScrollBar env f,
          rects = placed l,
          drawOrder = drawnNow l @ rev (deferredDraws l),
          cells = fillRemaining x y ?w vh (endPos l),
          bar = (if showVerticalScrollBar env f
              then map (\<lambda>printed.
                     (wrap (x + ?w), wrap (y + printed),
                      scrollCursor env (contentHeight f) (wrap (endFirstVisibleY l - y))
                        (wrap (contentHeight f - vh)),
                      printed)) [0 .. vh - 1]
              else [])\<rparr>"
    by (simp add: Draw_def Let_def)
  with g l that show thesis by simp
qed

lemma Draw_returns:
  assumes "\<forall>item\<in>set (items f). Item item \<noteq> None"
  shows "\<exists>r. Draw env f = Inr r"
proof (cases "visible (box f)")
  case False
  then show ?thesis by (simp add: Draw_def)
next
  case True
  obtain x y width0 vh where g: "GetInnerRect env (frame env f) = (x, y, width0, vh)"
    by (cases "GetInnerRect env (frame env f)") auto
  let ?w = "if width0 > 0 \<and> showVerticalScrollBar env f then width0 - 1 else width0"
  from drawItems_returns [OF assms] obtain l where
    "drawItems (HasFocus env) x y ?w (clampedOffset env f) (showVerticalScrollBar env f)
          y y (- 1) (items f) = Inr l"
    by blast
  with True g show ?thesis by (simp add: Draw_def Let_def)
qed

text \<open>The clamp of \<^verbatim>\<open>Draw\<close> when none of its sums leaves the range.\<close>

lemma clampedOffset_eq:
  assumes "clampInRange env f"
  shows "clampedOffset env f =
     (if contentExtent f > visibleheight env f
      then min (heightOffset f) (contentExtent f - visibleheight env f)
      else heightOffset f)"
proof -
  obtain x y width0 vh where g: "GetInnerRect env (frame env f) = (x, y, width0, vh)"
    by (cases "GetInnerRect env (frame env f)") auto
  from assms g have r: "inRange (contentExtent f)" "inRange (y + heightOffset f + vh)"
    "inRange (y + contentExtent f)" "inRange (contentExtent f - vh)"
    by (simp_all add: clampInRange_def)
  have c: "contentHeight f = contentExtent f" by (rule contentHeight_extent [OF r(1)])
  have "wrap (wrap (y + heightOffset f) + vh) = wrap (y + heightOffset f + vh)"
    by (rule wrap_add_left)
  with r(2) have a: "wrap (wrap (y + heightOffset f) + vh) = y + heightOffset f + vh"
    by (simp add: wrap_id)
  from r(3) have b: "wrap (y + contentExtent f) = y + contentExtent f" by (rule wrap_id)
  from r(4) have d: "wrap (contentExtent f - vh) = contentExtent f - vh" by (rule wrap_id)
  from g have "clampedOffset env f =
      (if contentExtent f > vh \<and> y + heightOffset f + vh > y + contentExtent f
       then contentExtent f - vh else heightOffset f)"
    by (simp add: clampedOffset_def c a b d)
  with g show ?thesis by (auto simp: visibleheight_def)
qed

lemma Draw_offset:
  assumes "visible (box f)" and "Draw env f = Inr r"
  shows "heightOffset (view r) = clampedOffset env f"
proof -
  have "view r = f\<lparr>box := frame env f, heightOffset := clampedOffset env f\<rparr>"
    by (rule Draw_Inr [OF assms])
  then show ?thesis by simp
qed

lemma ScrollTo_simps:
  "contentHeight (ScrollTo k w f) = contentHeight f"
  "contentExtent (ScrollTo k w f) = contentExtent f"
  "visibleheight env (ScrollTo k w f) = visibleheight env f"
  "heightOffset (ScrollTo k w f) = k"
  "items (ScrollTo k w f) = items f"
  "box (ScrollTo k w f) = box f"
  by (simp_all add: ScrollTo_def contentHeight_def contentExtent_def visibleheight_def frame_def)

lemmas sample_defs = sampleEnv_def sampleView_def sampleItem_def ScrollTo_def frame_def
  clampedOffset_def showVerticalScrollBar_def contentHeight_def visibleheight_def

subsection \<open>ScrollTo followed by Draw\<close>

text \<open>
  C1, as amended. Let \<open>0 \<le> k\<close>, and let no sum in the clamp of \<^verbatim>\<open>Draw\<close> leave the
  integer range. Then \<^verbatim>\<open>ScrollTo(k, _)\<close> followed by \<^verbatim>\<open>Draw\<close> of a visible view leaves
  the offset at \<open>clamp(k, 0, max(0, contentExtent - viewportExtent))\<close> when the content
  is taller than the viewport, and at \<open>k\<close> when the content fits: the clamp of
  \<^verbatim>\<open>Draw\<close> is guarded by \<^verbatim>\<open>contentHeight > visibleheight\<close>. Here \<open>contentExtent\<close> is the
  sum of the fixed sizes, which \<^verbatim>\<open>Draw\<close> computes, and \<open>viewportExtent\<close> the height of
  the inner rectangle. \<^verbatim>\<open>Draw\<close> returns normally whenever no item is nil.
\<close>

theorem ScrollTo_then_Draw_offset:
  assumes "visible (box f)" and "0 \<le> k" and "clampInRange env (ScrollTo k w f)"
  shows "(\<forall>r. Draw env (ScrollTo k w f) = Inr r \<longrightarrow>
            heightOffset (view r) =
              (if contentExtent f > visibleheight env f
               then clamp k 0 (max 0 (contentExtent f - visibleheight env f))
               else k)) \<and>
         contentHeight f = contentExtent f \<and>
         ((\<forall>item\<in>set (items f). Item item \<noteq> None) \<longrightarrow>
            (\<exists>r. Draw env (ScrollTo k w f) = Inr r))"
proof -
  have vis: "visible (box (ScrollTo k w f))" using assms(1) by (simp add: ScrollTo_simps)
  have off: "heightOffset (view r) =
              (if contentExtent f > visibleheight env f
               then clamp k 0 (max 0 (contentExtent f - visibleheight env f))
               else k)" if "Draw env (ScrollTo k w f) = Inr r" for r
  proof -
    have "heightOffset (view r) = clampedOffset env (ScrollTo k w f)"
      by (rule Draw_offset [OF vis that])
    also have "\<dots> = (if contentExtent f > visibleheight env f
               then min k (contentExtent f - visibleheight env f) else k)"
      using clampedOffset_eq [OF assms(3)] by (simp add: ScrollTo_simps)
    finally show ?thesis using assms(2) by (simp add: clamp_def)
  qed
  have "inRange (contentExtent f)"
    using assms(3)
    by (cases "GetInnerRect env (frame env (ScrollTo k w f))")
       (simp add: clampInRange_def ScrollTo_simps)
  then have ext: "contentHeight f = contentExtent f" by (rule contentHeight_extent)
  have ret: "\<exists>r. Draw env (ScrollTo k w f) = Inr r" if "\<forall>item\<in>set (items f). Item item \<noteq> None"
    using that by (intro Draw_returns) (simp add: ScrollTo_simps)
  have c1: "\<forall>r. Draw env (ScrollTo k w f) = Inr r \<longrightarrow>
            heightOffset (view r) =
              (if contentExtent f > visibleheight env f
               then clamp k 0 (max 0 (contentExtent f - visibleheight env f))
               else k)"
    by (intro allI impI) (rule off)
  have c3: "(\<forall>item\<in>set (items f). Item item \<noteq> None) \<longrightarrow>
            (\<exists>r. Draw env (ScrollTo k w f) = Inr r)"
    by (intro impI) (rule ret)
  from c1 ext c3 show ?thesis by (intro conjI)
qed

theorem ScrollTo_then_Draw_offset_witness:
  "visible (box (sampleView 5 10 ScrollBarAuto
        [sampleItem 1 10 False, sampleItem 2 10 False, sampleItem 3 10 False])) \<and>
   (0::int) \<le> 25 \<and>
   clampInRange sampleEnv (ScrollTo 25 0 (sampleView 5 10 ScrollBarAuto
        [sampleItem 1 10 False, sampleItem 2 10 False, sampleItem 3 10 False])) \<and>
   (\<exists>r. Draw sampleEnv (ScrollTo 25 0 (sampleView 5 10 ScrollBarAuto
        [sampleItem 1 10 False, sampleItem 2 10 False, sampleItem 3 10 False])) = Inr r \<and>
        heightOffset (view r) = 20 \<and> clamp 25 0 (max 0 (30 - 10)) = 20)"
proof -
  let ?v = "sampleView 5 10 ScrollBarAuto
        [sampleItem 1 10 False, sampleItem 2 10 False, sampleItem 3 10 False]"
  have vis: "visible (box ?v)" by (simp add: sampleView_def)
  have k: "(0::int) \<le> 25" by simp
  have rng: "clampInRange sampleEnv (ScrollTo 25 0 ?v)" by code_simp
  have nonnil: "\<forall>item\<in>set (items ?v). Item item \<noteq> None"
    by (simp add: sampleView_def sampleItem_def)
  note t = ScrollTo_then_Draw_offset [OF vis k rng]
  from t have "(\<forall>item\<in>set (items ?v). Item item \<noteq> None) \<longrightarrow>
            (\<exists>r. Draw sampleEnv (ScrollTo 25 0 ?v) = Inr r)" by (elim conjE)
  with nonnil obtain r where r: "Draw sampleEnv (ScrollTo 25 0 ?v) = Inr r" by (elim impE exE)
  from t have "\<forall>r. Draw sampleEnv (ScrollTo 25 0 ?v) = Inr r \<longrightarrow> heightOffset (view r) =
     (if contentExtent ?v > visibleheight sampleEnv ?v
      then clamp 25 0 (max 0 (contentExtent ?v - visibleheight sampleEnv ?v)) else 25)"
    by (elim conjE)
  with r have "heightOffset (view r) =
     (if contentExtent ?v > visibleheight sampleEnv ?v
      then clamp 25 0 (max 0 (contentExtent ?v - visibleheight sampleEnv ?v)) else 25)"
    by (elim allE impE)
  moreover have "contentExtent ?v = 30" by code_simp
  moreover have "visibleheight sampleEnv ?v = 10" by code_simp
  ultimately have "heightOffset (view r) = 20" by (simp add: clamp_def)
  moreover have "clamp 25 0 (max 0 (30 - 10)) = 20" by (simp add: clamp_def)
  ultimately show ?thesis using vis k rng r by (intro conjI exI [of _ r])
qed

text \<open>
  The claim as stated fails. With content 3 in a viewport of 10, \<^verbatim>\<open>ScrollTo(5)\<close> and
  \<^verbatim>\<open>Draw\<close> leave the offset 5, not \<open>clamp(5, 0, 0) = 0\<close>. With content 30 in a
  viewport of 10, \<^verbatim>\<open>ScrollTo(-5)\<close> and \<^verbatim>\<open>Draw\<close> leave the offset \<open>-5\<close>, and
  \<^verbatim>\<open>ScrollTo\<close> of the largest integer leaves that integer, the sum in the clamp test
  having wrapped.
\<close>

theorem ScrollTo_then_Draw_offset_counterexample:
  "(case Draw sampleEnv (ScrollTo 5 0 (sampleView 5 10 ScrollBarAuto [sampleItem 1 3 False])) of
      Inl e \<Rightarrow> None | Inr r \<Rightarrow> Some (heightOffset (view r))) = Some 5 \<and>
   contentExtent (sampleView 5 10 ScrollBarAuto [sampleItem 1 3 False]) = 3 \<and>
   visibleheight sampleEnv (sampleView 5 10 ScrollBarAuto [sampleItem 1 3 False]) = 10 \<and>
   clamp 5 0 (max 0 (3 - 10)) = 0 \<and>
   (case Draw sampleEnv (ScrollTo (- 5) 0 (sampleView 5 10 ScrollBarAuto [sampleItem 1 30 False])) of
      Inl e \<Rightarrow> None | Inr r \<Rightarrow> Some (heightOffset (view r))) = Some (- 5) \<and>
   clamp (- 5) 0 (max 0 (30 - 10)) = 0 \<and>
   (case Draw sampleEnv (ScrollTo 9223372036854775807 0
        (sampleView 5 10 ScrollBarAuto [sampleItem 1 30 False])) of
      Inl e \<Rightarrow> None | Inr r \<Rightarrow> Some (heightOffset (view r))) = Some 9223372036854775807 \<and>
   clamp 9223372036854775807 0 (max 0 (30 - 10)) = 20"
  by code_simp

subsection \<open>The scrollbar decision\<close>



subsection \<open>RemoveItem\<close>

lemma removeLoop_filter:
  "n \<le> length its \<Longrightarrow>
   removeLoop p (int n - 1) its = filter (\<lambda>it. Item it \<noteq> p) (take n its) @ drop n its"
proof (induction n arbitrary: its)
  case 0
  then show ?case by (subst removeLoop.simps) simp
next
  case (Suc n)
  then have n: "n < length its" by simp
  let ?its' = "if Item (its ! n) = p then take n its @ drop (Suc n) its else its"
  have step: "removeLoop p (int (Suc n) - 1) its = removeLoop p (int n - 1) ?its'"
    by (subst removeLoop.simps) (simp add: nat_add_distrib)
  have len: "n \<le> length ?its'" using n by auto
  have "removeLoop p (int n - 1) ?its' =
        filter (\<lambda>it. Item it \<noteq> p) (take n ?its') @ drop n ?its'"
    by (rule Suc.IH [OF len])
  also have "\<dots> = filter (\<lambda>it. Item it \<noteq> p) (take (Suc n) its) @ drop (Suc n) its"
    using n by (simp add: take_Suc_conv_app_nth Cons_nth_drop_Suc)
  finally show ?case using step by simp
qed


text \<open>
  C8. \<^verbatim>\<open>RemoveItem(p)\<close> removes every item whose primitive is \<open>p\<close>, however often
  \<open>p\<close> occurs; the items that stay are unchanged and keep their order (the new list is
  the old one filtered), and no other field of the view changes.
\<close>

theorem RemoveItem_removes_every_occurrence:
  "RemoveItem p f = f\<lparr>items := filter (\<lambda>it. Item it \<noteq> p) (items f)\<rparr>"
  using removeLoop_filter [of "length (items f)" "items f" p]
  by (simp add: RemoveItem_def)

subsection \<open>Skipping the items above the offset\<close>

lemma skipsItem_start:
  assumes "GetInnerRect env (frame env f) = (x, y, width0, vh)"
    and "loopInRange env f (clampedOffset env f)" and "i < length (items f)"
  shows "skipsItem env f i =
           (showVerticalScrollBar env f \<and> startOf (items f) i < clampedOffset env f)"
proof -
  from assms(1,2) have off: "inRange (y + clampedOffset env f)"
    and all: "\<forall>j<length (items f). inRange (y + startOf (items f) j)"
    by (simp_all add: loopInRange_def list_all_iff)
  from assms(3) have "0 < length (items f)" by arith
  with all have "inRange (y + startOf (items f) 0)" by blast
  then have y: "inRange y" by (simp add: startOf_def)
  from all assms(3) have "inRange (y + startOf (items f) i)" by blast
  with y have "posScrolledAt y (items f) i = y + startOf (items f) i"
    by (rule posScrolledAt_start)
  moreover from off have "wrap (y + clampedOffset env f) = y + clampedOffset env f"
    by (rule wrap_id)
  ultimately show ?thesis using assms(1) by (simp add: skipsItem_def)
qed

text \<open>
  C2, as amended. In a \<^verbatim>\<open>Draw\<close> of a visible view an item is skipped (no rectangle,
  not drawn) exactly when the loop's test \<^verbatim>\<open>posScrolled < y+heightOffset &&
  showVerticalScrollBar\<close> holds for it. When no sum of that test leaves the integer
  range and the scrollbar is shown (mode \<open>Always\<close>, or \<open>Auto\<close> with content taller
  than the viewport), this is: exactly when its accumulated position is below the
  offset \<open>s\<close>; in particular every item of positive size that ends at or above \<open>s\<close>
  is skipped, and the first item whose accumulated position reaches \<open>s\<close> gets the
  rectangle at the top of the viewport. When the scrollbar is not shown (mode
  \<open>Never\<close>, or \<open>Auto\<close> with content that fits) no item is skipped, whatever the
  offset. The children drawn are those of the items with a rectangle, the focused
  ones last.
\<close>

theorem Draw_skips_items_above_offset:
  assumes "visible (box f)" and "Draw env f = Inr r"
    and "GetInnerRect env (frame env f) = (x, y, width0, vh)"
  shows "length (rects r) = length (items f) \<and>
    (\<forall>i<length (items f). (rects r ! i = None) = skipsItem env f i) \<and>
    (loopInRange env f (heightOffset (view r)) \<longrightarrow>
       (\<forall>i<length (items f).
          (rects r ! i = None) =
          (scrollBarShown r \<and> startOf (items f) i < heightOffset (view r))) \<and>
       (\<forall>i<length (items f).
          scrollBarShown r \<longrightarrow> 0 < FixedSize (items f ! i) \<longrightarrow>
          startOf (items f) i + FixedSize (items f ! i) \<le> heightOffset (view r) \<longrightarrow>
          rects r ! i = None) \<and>
       (\<forall>i<length (items f).
          scrollBarShown r \<longrightarrow> (\<forall>j<i. startOf (items f) j < heightOffset (view r)) \<longrightarrow>
          heightOffset (view r) \<le> startOf (items f) i \<longrightarrow>
          rects r ! i =
            Some (x, y, (if width0 > 0 then width0 - 1 else width0), FixedSize (items f ! i)))) \<and>
    (\<not> scrollBarShown r \<longrightarrow> (\<forall>i<length (items f). rects r ! i \<noteq> None)) \<and>
    drawOrder r =
      filter (\<lambda>p. \<not> HasFocus env p) (drawnChildren (items f) (rects r)) @
      rev (filter (HasFocus env) (drawnChildren (items f) (rects r)))"
proof (rule Draw_Inr [OF assms(1,2)])
  fix x' y' width0' vh' l
  assume g': "GetInnerRect env (frame env f) = (x', y', width0', vh')"
    and l': "drawItems (HasFocus env) x' y'
       (if width0' > 0 \<and> showVerticalScrollBar env f then width0' - 1 else width0')
       (clampedOffset env f) (showVerticalScrollBar env f) y' y' (- 1) (items f) = Inr l"
    and v: "view r = f\<lparr>box := frame env f, heightOffset := clampedOffset env f\<rparr>"
    and sh: "scrollBarShown r = showVerticalScrollBar env f"
    and rc: "rects r = placed l"
    and dr: "drawOrder r = drawnNow l @ rev (deferredDraws l)"
  from g' assms(3) have eq: "x' = x" "y' = y" "width0' = width0" "vh' = vh" by simp_all
  let ?w = "if width0 > 0 \<and> showVerticalScrollBar env f then width0 - 1 else width0"
  have l: "drawItems (HasFocus env) x y ?w (clampedOffset env f)
       (showVerticalScrollBar env f) y y (- 1) (items f) = Inr l"
    using l' unfolding eq .
  from v have off: "heightOffset (view r) = clampedOffset env f" by simp
  have len: "length (rects r) = length (items f)"
    using drawItems_length [OF l] rc by simp
  have exact: "(rects r ! i = None) = skipsItem env f i" if "i < length (items f)" for i
    using drawItems_skipped [OF l that] rc assms(3) by (simp add: skipsItem_def)
  have none_shown: "\<forall>i<length (items f). rects r ! i \<noteq> None" if "\<not> scrollBarShown r"
  proof (intro allI impI)
    fix i assume "i < length (items f)"
    from drawItems_skipped [OF l this] rc sh that show "rects r ! i \<noteq> None" by simp
  qed
  have order: "drawOrder r =
      filter (\<lambda>p. \<not> HasFocus env p) (drawnChildren (items f) (rects r)) @
      rev (filter (HasFocus env) (drawnChildren (items f) (rects r)))"
    using drawItems_drawn [OF l] rc dr by simp
  have ranged: "(\<forall>i<length (items f).
          (rects r ! i = None) =
          (scrollBarShown r \<and> startOf (items f) i < heightOffset (view r))) \<and>
       (\<forall>i<length (items f).
          scrollBarShown r \<longrightarrow> 0 < FixedSize (items f ! i) \<longrightarrow>
          startOf (items f) i + FixedSize (items f ! i) \<le> heightOffset (view r) \<longrightarrow>
          rects r ! i = None) \<and>
       (\<forall>i<length (items f).
          scrollBarShown r \<longrightarrow> (\<forall>j<i. startOf (items f) j < heightOffset (view r)) \<longrightarrow>
          heightOffset (view r) \<le> startOf (items f) i \<longrightarrow>
          rects r ! i =
            Some (x, y, (if width0 > 0 then width0 - 1 else width0), FixedSize (items f ! i)))"
    if rng: "loopInRange env f (heightOffset (view r))"
  proof -
    from rng off have rng': "loopInRange env f (clampedOffset env f)" by simp
    have skip: "(rects r ! i = None) =
         (scrollBarShown r \<and> startOf (items f) i < heightOffset (view r))"
      if "i < length (items f)" for i
      using exact [OF that] skipsItem_start [OF assms(3) rng' that] sh off by simp
    have above: "rects r ! i = None"
      if "i < length (items f)" "scrollBarShown r" "0 < FixedSize (items f ! i)"
         "startOf (items f) i + FixedSize (items f ! i) \<le> heightOffset (view r)" for i
      using skip [OF that(1)] that by simp
    have first: "rects r ! i =
           Some (x, y, (if width0 > 0 then width0 - 1 else width0), FixedSize (items f ! i))"
      if i: "i < length (items f)" and s: "scrollBarShown r"
        and before: "\<forall>j<i. startOf (items f) j < heightOffset (view r)"
        and here: "heightOffset (view r) \<le> startOf (items f) i" for i
    proof -
      have none: "\<forall>j<i. placed l ! j = None"
      proof (intro allI impI)
        fix j assume j: "j < i"
        with i have "j < length (items f)" by simp
        from skip [OF this] before j s rc show "placed l ! j = None" by simp
      qed
      from skip [OF i] here rc have some: "placed l ! i \<noteq> None" by simp
      from drawItems_first_at_pos [OF l i none some] rc s sh show ?thesis by simp
    qed
    have c2: "\<forall>i<length (items f).
         (rects r ! i = None) =
         (scrollBarShown r \<and> startOf (items f) i < heightOffset (view r))"
      by (intro allI impI) (rule skip)
    have c3: "\<forall>i<length (items f).
         scrollBarShown r \<longrightarrow> 0 < FixedSize (items f ! i) \<longrightarrow>
         startOf (items f) i + FixedSize (items f ! i) \<le> heightOffset (view r) \<longrightarrow>
         rects r ! i = None"
      by (intro allI impI) (rule above)
    have c4: "\<forall>i<length (items f).
         scrollBarShown r \<longrightarrow> (\<forall>j<i. startOf (items f) j < heightOffset (view r)) \<longrightarrow>
         heightOffset (view r) \<le> startOf (items f) i \<longrightarrow>
         rects r ! i =
           Some (x, y, (if width0 > 0 then width0 - 1 else width0), FixedSize (items f ! i))"
      by (intro allI impI) (rule first)
    from c2 c3 c4 show ?thesis by (intro conjI)
  qed
  have c1: "\<forall>i<length (items f). (rects r ! i = None) = skipsItem env f i"
    by (intro allI impI) (rule exact)
  have c5: "\<not> scrollBarShown r \<longrightarrow> (\<forall>i<length (items f). rects r ! i \<noteq> None)"
    using none_shown by (intro impI)
  from ranged have cr: "loopInRange env f (heightOffset (view r)) \<longrightarrow>
       (\<forall>i<length (items f).
          (rects r ! i = None) =
          (scrollBarShown r \<and> startOf (items f) i < heightOffset (view r))) \<and>
       (\<forall>i<length (items f).
          scrollBarShown r \<longrightarrow> 0 < FixedSize (items f ! i) \<longrightarrow>
          startOf (items f) i + FixedSize (items f ! i) \<le> heightOffset (view r) \<longrightarrow>
          rects r ! i = None) \<and>
       (\<forall>i<length (items f).
          scrollBarShown r \<longrightarrow> (\<forall>j<i. startOf (items f) j < heightOffset (view r)) \<longrightarrow>
          heightOffset (view r) \<le> startOf (items f) i \<longrightarrow>
          rects r ! i =
            Some (x, y, (if width0 > 0 then width0 - 1 else width0), FixedSize (items f ! i)))"
    by (intro impI)
  from len c1 cr c5 order show ?thesis by (intro conjI)
qed

theorem Draw_skips_items_above_offset_witness:
  "visible (box (ScrollTo 10 0 (sampleView 5 10 ScrollBarAuto
        [sampleItem 1 10 False, sampleItem 2 10 False, sampleItem 3 10 False]))) \<and>
   GetInnerRect sampleEnv (frame sampleEnv (ScrollTo 10 0 (sampleView 5 10 ScrollBarAuto
        [sampleItem 1 10 False, sampleItem 2 10 False, sampleItem 3 10 False]))) = (0, 0, 5, 10) \<and>
   loopInRange sampleEnv (ScrollTo 10 0 (sampleView 5 10 ScrollBarAuto
        [sampleItem 1 10 False, sampleItem 2 10 False, sampleItem 3 10 False])) 10 \<and>
   (\<exists>r. Draw sampleEnv (ScrollTo 10 0 (sampleView 5 10 ScrollBarAuto
        [sampleItem 1 10 False, sampleItem 2 10 False, sampleItem 3 10 False])) = Inr r \<and>
      scrollBarShown r \<and> heightOffset (view r) = 10 \<and> length (rects r) = 3 \<and>
      rects r ! 0 = None \<and> rects r ! 1 = Some (0, 0, 4, 10))"
proof -
  let ?v = "ScrollTo 10 0 (sampleView 5 10 ScrollBarAuto
        [sampleItem 1 10 False, sampleItem 2 10 False, sampleItem 3 10 False])"
  have vis: "visible (box ?v)" by (simp add: sample_defs)
  have g: "GetInnerRect sampleEnv (frame sampleEnv ?v) = (0, 0, 5, 10)"
    by (simp add: sample_defs)
  have rng: "loopInRange sampleEnv ?v 10" by code_simp
  have n: "\<forall>item\<in>set (items ?v). Item item \<noteq> None" by (simp add: sample_defs)
  from Draw_returns [OF n] obtain r where r: "Draw sampleEnv ?v = Inr r" ..
  have "scrollBarShown r = showVerticalScrollBar sampleEnv ?v"
    by (rule Draw_Inr [OF vis r])
  moreover have "showVerticalScrollBar sampleEnv ?v" by code_simp
  ultimately have sh: "scrollBarShown r" by simp
  have "heightOffset (view r) = clampedOffset sampleEnv ?v"
    by (rule Draw_offset [OF vis r])
  moreover have "clampedOffset sampleEnv ?v = 10" by code_simp
  ultimately have off: "heightOffset (view r) = 10" by simp
  have its: "length (items ?v) = 3" "startOf (items ?v) 0 = 0" "startOf (items ?v) 1 = 10"
    "FixedSize (items ?v ! 1) = 10"
    by (simp_all add: sample_defs startOf_def)
  note t = Draw_skips_items_above_offset [OF vis r g]
  from t have len: "length (rects r) = 3" unfolding its by (elim conjE)
  from rng off have rng': "loopInRange sampleEnv ?v (heightOffset (view r))" by simp
  from t have "loopInRange sampleEnv ?v (heightOffset (view r)) \<longrightarrow>
       (\<forall>i<length (items ?v).
          (rects r ! i = None) =
          (scrollBarShown r \<and> startOf (items ?v) i < heightOffset (view r))) \<and>
       (\<forall>i<length (items ?v).
          scrollBarShown r \<longrightarrow> 0 < FixedSize (items ?v ! i) \<longrightarrow>
          startOf (items ?v) i + FixedSize (items ?v ! i) \<le> heightOffset (view r) \<longrightarrow>
          rects r ! i = None) \<and>
       (\<forall>i<length (items ?v).
          scrollBarShown r \<longrightarrow> (\<forall>j<i. startOf (items ?v) j < heightOffset (view r)) \<longrightarrow>
          heightOffset (view r) \<le> startOf (items ?v) i \<longrightarrow>
          rects r ! i =
            Some (0, 0, (if (5::int) > 0 then 5 - 1 else 5), FixedSize (items ?v ! i)))"
    by (elim conjE)
  with rng' have ranged:
    "(\<forall>i<length (items ?v).
          (rects r ! i = None) =
          (scrollBarShown r \<and> startOf (items ?v) i < heightOffset (view r))) \<and>
       (\<forall>i<length (items ?v).
          scrollBarShown r \<longrightarrow> 0 < FixedSize (items ?v ! i) \<longrightarrow>
          startOf (items ?v) i + FixedSize (items ?v ! i) \<le> heightOffset (view r) \<longrightarrow>
          rects r ! i = None) \<and>
       (\<forall>i<length (items ?v).
          scrollBarShown r \<longrightarrow> (\<forall>j<i. startOf (items ?v) j < heightOffset (view r)) \<longrightarrow>
          heightOffset (view r) \<le> startOf (items ?v) i \<longrightarrow>
          rects r ! i =
            Some (0, 0, (if (5::int) > 0 then 5 - 1 else 5), FixedSize (items ?v ! i)))"
    by (elim impE)
  then have "\<forall>i<length (items ?v).
       (rects r ! i = None) =
       (scrollBarShown r \<and> startOf (items ?v) i < heightOffset (view r))" by (elim conjE)
  then have "0 < length (items ?v) \<longrightarrow> (rects r ! 0 = None) =
       (scrollBarShown r \<and> startOf (items ?v) 0 < heightOffset (view r))"
    by (elim allE)
  with sh off have r0: "rects r ! 0 = None" by (simp add: sample_defs startOf_def)
  from ranged have "\<forall>i<length (items ?v).
       scrollBarShown r \<longrightarrow> (\<forall>j<i. startOf (items ?v) j < heightOffset (view r)) \<longrightarrow>
       heightOffset (view r) \<le> startOf (items ?v) i \<longrightarrow>
       rects r ! i =
         Some (0, 0, (if (5::int) > 0 then 5 - 1 else 5), FixedSize (items ?v ! i))"
    by (elim conjE)
  then have "1 < length (items ?v) \<longrightarrow>
       scrollBarShown r \<longrightarrow> (\<forall>j<1. startOf (items ?v) j < heightOffset (view r)) \<longrightarrow>
       heightOffset (view r) \<le> startOf (items ?v) 1 \<longrightarrow>
       rects r ! 1 =
         Some (0, 0, (if (5::int) > 0 then 5 - 1 else 5), FixedSize (items ?v ! 1))"
    by (elim allE)
  with sh off have r1: "rects r ! 1 = Some (0, 0, 4, 10)"
    by (simp add: sample_defs startOf_def)
  from vis g rng r sh off len r0 r1 show ?thesis by (intro conjI exI [of _ r])
qed

text \<open>
  The claim as stated fails for mode \<open>Never\<close>: with three items of size 10 in a
  viewport of height 10 and offset 10, the first item lies entirely above the offset,
  yet it is given the rectangle at the top of the viewport and drawn. It also fails
  when \<open>y + heightOffset\<close> wraps: in the same view under mode \<open>Auto\<close>, with the inner
  rectangle at row 1 and the largest integer as offset, no item is skipped.
\<close>

theorem Draw_skips_items_above_offset_counterexample:
  "(case Draw sampleEnv (ScrollTo 10 0 (sampleView 5 10 ScrollBarNever
        [sampleItem 1 10 False, sampleItem 2 10 False, sampleItem 3 10 False])) of
      Inl e \<Rightarrow> False
    | Inr r \<Rightarrow> heightOffset (view r) = 10 \<and>
               rects r = [Some (0, 0, 5, 10), Some (0, 10, 5, 10), Some (0, 20, 5, 10)] \<and>
               drawOrder r = [1, 2, 3]) \<and>
   (case Draw sampleEnv
      \<lparr>box = \<lparr>visible = True, rect = (0, 1, 5, 10), hasFocus = False\<rparr>,
       items = [sampleItem 1 10 False, sampleItem 2 10 False, sampleItem 3 10 False],
       fullScreen = False, scrollBarVisibility = ScrollBarAuto,
       heightOffset = 9223372036854775807\<rparr> of
      Inl e \<Rightarrow> False
    | Inr r \<Rightarrow> scrollBarShown r \<and> heightOffset (view r) = 9223372036854775807 \<and>
               rects r = [Some (0, 1, 4, 10), Some (0, 11, 4, 10), Some (0, 21, 4, 10)])"
  by code_simp

subsection \<open>The scrollbar cursor\<close>

text \<open>
  C3, as amended. In a \<^verbatim>\<open>Draw\<close> of a visible view under mode \<open>Auto\<close> the scrollbar
  is rendered only when the content is taller than the viewport, so the divisor
  \<open>contentHeight - visibleheight\<close> of the cursor formula is positive there. Under mode
  \<open>Always\<close> the scrollbar is rendered whatever the sizes are, also when the content
  exactly fits and the divisor is zero. The cursor handed to \<^verbatim>\<open>RenderScrollBar\<close> never
  exceeds \<open>contentHeight\<close>, whatever the floating-point expression yields; the source
  has no clamp from below. (The divisor as the machine computes it, with wrap-around,
  is nonzero under \<open>Auto\<close> as well.)
\<close>

theorem Draw_cursor_divisor:
  assumes "visible (box f)" and "Draw env f = Inr r"
  shows "(scrollBarVisibility f = ScrollBarAuto \<longrightarrow> scrollBarShown r \<longrightarrow>
            0 < contentHeight f - visibleheight env f) \<and>
         (scrollBarVisibility f = ScrollBarAlways \<longrightarrow> scrollBarShown r) \<and>
         (scrollBarVisibility f = ScrollBarNever \<longrightarrow> bar r = []) \<and>
         (\<forall>(column, row, cursor, printed)\<in>set (bar r). cursor \<le> contentHeight f) \<and>
         (scrollBarVisibility f = ScrollBarAuto \<longrightarrow> scrollBarShown r \<longrightarrow>
            inRange (visibleheight env f) \<longrightarrow>
            wrap (contentHeight f - visibleheight env f) \<noteq> 0)"
proof (rule Draw_Inr [OF assms])
  fix x y width0 vh l
  assume sh: "scrollBarShown r = showVerticalScrollBar env f"
    and b: "bar r = (if showVerticalScrollBar env f
              then map (\<lambda>printed.
                     (wrap (x + (if width0 > 0 \<and> showVerticalScrollBar env f
                                 then width0 - 1 else width0)),
                      wrap (y + printed),
                      scrollCursor env (contentHeight f) (wrap (endFirstVisibleY l - y))
                        (wrap (contentHeight f - vh)),
                      printed)) [0 .. vh - 1]
              else [])"
  have cur: "scrollCursor env c n d \<le> c" for c n d
    by (simp add: scrollCursor_def Let_def)
  have c1: "scrollBarVisibility f = ScrollBarAuto \<longrightarrow> scrollBarShown r \<longrightarrow>
            0 < contentHeight f - visibleheight env f"
    using sh by (simp add: showVerticalScrollBar_def)
  have c2: "scrollBarVisibility f = ScrollBarAlways \<longrightarrow> scrollBarShown r"
    using sh by (simp add: showVerticalScrollBar_def)
  have c3: "scrollBarVisibility f = ScrollBarNever \<longrightarrow> bar r = []"
    unfolding b by (simp add: showVerticalScrollBar_def)
  have c4: "\<forall>(column, row, cursor, printed)\<in>set (bar r). cursor \<le> contentHeight f"
    unfolding b by (auto simp: cur)
  have c5: "scrollBarVisibility f = ScrollBarAuto \<longrightarrow> scrollBarShown r \<longrightarrow>
            inRange (visibleheight env f) \<longrightarrow>
            wrap (contentHeight f - visibleheight env f) \<noteq> 0"
  proof (intro impI)
    assume "scrollBarVisibility f = ScrollBarAuto" "scrollBarShown r"
      and v: "inRange (visibleheight env f)"
    with sh have "contentHeight f \<noteq> visibleheight env f"
      by (simp add: showVerticalScrollBar_def)
    moreover have "inRange (contentHeight f)"
      unfolding contentHeight_wrap by (rule inRange_wrap)
    ultimately show "wrap (contentHeight f - visibleheight env f) \<noteq> 0"
      using v by (intro wrap_sub_nonzero)
  qed
  from c1 c2 c3 c4 c5 show ?thesis by (intro conjI)
qed

theorem Draw_cursor_divisor_witness:
  "visible (box (sampleView 5 10 ScrollBarAuto
        [sampleItem 1 10 False, sampleItem 2 10 False, sampleItem 3 10 False])) \<and>
   (\<exists>r. Draw sampleEnv (sampleView 5 10 ScrollBarAuto
        [sampleItem 1 10 False, sampleItem 2 10 False, sampleItem 3 10 False]) = Inr r \<and>
      scrollBarShown r \<and> (0::int) < 30 - 10 \<and>
      (\<forall>(column, row, cursor, printed)\<in>set (bar r). cursor \<le> 30))"
proof -
  let ?v = "sampleView 5 10 ScrollBarAuto
        [sampleItem 1 10 False, sampleItem 2 10 False, sampleItem 3 10 False]"
  have vis: "visible (box ?v)" by (simp add: sample_defs)
  have n: "\<forall>item\<in>set (items ?v). Item item \<noteq> None" by (simp add: sample_defs)
  from Draw_returns [OF n] obtain r where r: "Draw sampleEnv ?v = Inr r" ..
  have "scrollBarShown r = showVerticalScrollBar sampleEnv ?v"
    by (rule Draw_Inr [OF vis r])
  moreover have "showVerticalScrollBar sampleEnv ?v" by code_simp
  ultimately have sh: "scrollBarShown r" by simp
  note t = Draw_cursor_divisor [OF vis r]
  from t have "\<forall>(column, row, cursor, printed)\<in>set (bar r). cursor \<le> contentHeight ?v"
    by (elim conjE)
  moreover have "contentHeight ?v = 30" by code_simp
  ultimately have c: "\<forall>(column, row, cursor, printed)\<in>set (bar r). cursor \<le> 30"
    by simp
  have "(0::int) < 30 - 10" by simp
  with vis r sh c show ?thesis by (intro conjI exI [of _ r])
qed

text \<open>
  The claim as stated fails for mode \<open>Always\<close>: with one item of size 10 in a
  viewport of height 10 the scrollbar is rendered (ten calls of
  \<^verbatim>\<open>RenderScrollBar\<close>) and the divisor of the cursor formula is zero.
\<close>

theorem Draw_cursor_divisor_counterexample:
  "(case Draw sampleEnv (sampleView 5 10 ScrollBarAlways [sampleItem 1 10 False]) of
      Inl e \<Rightarrow> False
    | Inr r \<Rightarrow> scrollBarShown r \<and> length (bar r) = 10) \<and>
   contentHeight (sampleView 5 10 ScrollBarAlways [sampleItem 1 10 False]) -
     visibleheight sampleEnv (sampleView 5 10 ScrollBarAlways [sampleItem 1 10 False]) = 0"
  by code_simp

subsection \<open>Filling the space below the last item\<close>

lemma fillRemaining_column:
  "set (fillRemaining x y width vh pos) \<subseteq> {x} \<times> {pos ..< wrap (y + vh)}"
  by (auto simp: fillRemaining_def)

text \<open>
  C9 does not hold of the code: the fill loop passes \<open>x\<close>, not \<open>x + xx\<close>, to
  \<^verbatim>\<open>SetContent\<close>, so every cell it writes lies in the leftmost column (lemma
  \<open>fillRemaining_column\<close>). With one item of size 3 in a view of inner width 5 and
  height 10, rows 3 to 9 are left over; the loop writes the cell of column 0 in each
  of them (five times over) and none of columns 1 to 4.
\<close>

theorem Draw_fill_writes_first_column_only:
  "(case Draw sampleEnv (sampleView 5 10 ScrollBarNever [sampleItem 1 3 False]) of
      Inl e \<Rightarrow> False
    | Inr r \<Rightarrow> rects r = [Some (0, 0, 5, 3)] \<and>
               remdups (cells r) = [(0, 3), (0, 4), (0, 5), (0, 6), (0, 7), (0, 8), (0, 9)] \<and>
               (1, 3) \<notin> set (cells r) \<and> (4, 9) \<notin> set (cells r))"
  by code_simp

subsection \<open>Nil items\<close>

text \<open>
  C10. \<^verbatim>\<open>AddItemAtIndex\<close> with an index within \<open>0..len\<close> stores its primitive
  argument exactly as passed, nil or not: the new list holds an item of that
  primitive at the index and \<^verbatim>\<open>GetItems\<close> returns it there. \<^verbatim>\<open>AddItem\<close>, in
  contrast, stores a new Box in place of a nil (and a non-nil argument as it is). After
  \<^verbatim>\<open>AddItemAtIndex\<close> with nil, a \<^verbatim>\<open>Draw\<close> of the view, when visible, panics with a nil
  dereference at \<^verbatim>\<open>SetRect\<close> unless the loop's skip test holds for that item.
\<close>

theorem AddItemAtIndex_stores_argument:
  assumes "0 \<le> index" and "index \<le> int (length (items f))"
  shows "AddItemAtIndex index item fixedSize foc f =
           Inr (f\<lparr>items := take (nat index) (items f) @
                          \<lparr>Item = item, FixedSize = fixedSize, Focus = foc\<rparr> #
                          drop (nat index) (items f)\<rparr>) \<and>
         (\<forall>f'. AddItemAtIndex index item fixedSize foc f = Inr f' \<longrightarrow>
            GetItems f' ! nat index = item \<and>
            length (GetItems f') = Suc (length (items f))) \<and>
         Item (last (items (AddItem newBox None fixedSize foc f))) = Some newBox \<and>
         (item \<noteq> None \<longrightarrow> Item (last (items (AddItem newBox item fixedSize foc f))) = item) \<and>
         (\<forall>f'. AddItemAtIndex index None fixedSize foc f = Inr f' \<longrightarrow>
            visible (box f') \<longrightarrow> \<not> skipsItem env f' (nat index) \<longrightarrow>
            Draw env f' = Inl NilPointerDereference)"
proof -
  have n: "nat index \<le> length (items f)" using assms by simp
  have add: "AddItemAtIndex index it fixedSize foc f =
           Inr (f\<lparr>items := take (nat index) (items f) @
                          \<lparr>Item = it, FixedSize = fixedSize, Focus = foc\<rparr> #
                          drop (nat index) (items f)\<rparr>)" for it
    using assms by (cases "index = 0") (simp_all add: AddItemAtIndex_def)
  have nth: "(take (nat index) (items f) @
               \<lparr>Item = it, FixedSize = fixedSize, Focus = foc\<rparr> # drop (nat index) (items f))
             ! nat index = \<lparr>Item = it, FixedSize = fixedSize, Focus = foc\<rparr>" for it
    using n by (simp add: nth_append)
  have len: "length (take (nat index) (items f) @
               \<lparr>Item = it, FixedSize = fixedSize, Focus = foc\<rparr> # drop (nat index) (items f))
             = Suc (length (items f))" for it
    using n by simp
  have get: "GetItems f' ! nat index = item \<and> length (GetItems f') = Suc (length (items f))"
    if "AddItemAtIndex index item fixedSize foc f = Inr f'" for f'
  proof -
    let ?l = "take (nat index) (items f) @
               \<lparr>Item = item, FixedSize = fixedSize, Focus = foc\<rparr> # drop (nat index) (items f)"
    from that add [of item] have its: "items f' = ?l" by auto
    from n have lt: "nat index < length ?l" by simp
    have "GetItems f' ! nat index = map Item ?l ! nat index"
      by (simp only: GetItems_def its)
    also have "\<dots> = Item (?l ! nat index)" using lt by (rule nth_map)
    also have "\<dots> = item" by (simp only: nth scrollItem.simps)
    finally have 1: "GetItems f' ! nat index = item" .
    have 2: "length (GetItems f') = Suc (length (items f))"
      by (simp only: GetItems_def its length_map len)
    from 1 2 show ?thesis ..
  qed
  have addItem: "Item (last (items (AddItem newBox None fixedSize foc f))) = Some newBox"
    by (simp add: AddItem_def)
  have addItem': "Item (last (items (AddItem newBox item fixedSize foc f))) = item"
    if "item \<noteq> None"
    using that by (simp add: AddItem_def)
  have draw: "Draw env f' = Inl NilPointerDereference"
    if a: "AddItemAtIndex index None fixedSize foc f = Inr f'"
      and vis: "visible (box f')" and ns: "\<not> skipsItem env f' (nat index)" for f'
  proof -
    let ?l = "take (nat index) (items f) @
               \<lparr>Item = None, FixedSize = fixedSize, Focus = foc\<rparr> # drop (nat index) (items f)"
    from a add [of None] have its: "items f' = ?l" by auto
    from n have lt: "nat index < length (items f')" by (simp add: its)
    have nil: "Item (items f' ! nat index) = None"
      by (simp only: its nth scrollItem.simps)
    obtain x y width0 vh where g: "GetInnerRect env (frame env f') = (x, y, width0, vh)"
      by (cases "GetInnerRect env (frame env f')") auto
    from ns g have ns': "\<not> (showVerticalScrollBar env f' \<and>
        posScrolledAt y (items f') (nat index) < wrap (y + clampedOffset env f'))"
      by (simp add: skipsItem_def)
    have "drawItems (HasFocus env) x y
            (if width0 > 0 \<and> showVerticalScrollBar env f' then width0 - 1 else width0)
            (clampedOffset env f') (showVerticalScrollBar env f') y y (- 1) (items f')
          = Inl NilPointerDereference"
      by (rule drawItems_nil_panics [OF lt nil ns'])
    with vis g show ?thesis by (simp add: Draw_def Let_def)
  qed
  have c2: "\<forall>f'. AddItemAtIndex index item fixedSize foc f = Inr f' \<longrightarrow>
            GetItems f' ! nat index = item \<and>
            length (GetItems f') = Suc (length (items f))"
    by (intro allI impI) (rule get)
  have c4: "item \<noteq> None \<longrightarrow> Item (last (items (AddItem newBox item fixedSize foc f))) = item"
    by (intro impI) (rule addItem')
  have c5: "\<forall>f'. AddItemAtIndex index None fixedSize foc f = Inr f' \<longrightarrow>
            visible (box f') \<longrightarrow> \<not> skipsItem env f' (nat index) \<longrightarrow>
            Draw env f' = Inl NilPointerDereference"
    by (intro allI impI) (rule draw)
  from add [of item] c2 addItem c4 c5 show ?thesis by (intro conjI)
qed

theorem AddItemAtIndex_stores_argument_witness:
  "(0::int) \<le> 1 \<and> 1 \<le> int (length (items (sampleView 5 10 ScrollBarNever [sampleItem 1 3 False]))) \<and>
   AddItemAtIndex 1 (Some 9) 2 False (sampleView 5 10 ScrollBarNever [sampleItem 1 3 False]) =
     Inr (sampleView 5 10 ScrollBarNever [sampleItem 1 3 False, sampleItem 9 2 False]) \<and>
   GetItems (sampleView 5 10 ScrollBarNever [sampleItem 1 3 False, sampleItem 9 2 False]) ! 1 =
     Some 9 \<and>
   AddItemAtIndex 1 None 2 False (sampleView 5 10 ScrollBarNever [sampleItem 1 3 False]) =
     Inr (sampleView 5 10 ScrollBarNever
            [sampleItem 1 3 False, \<lparr>Item = None, FixedSize = 2, Focus = False\<rparr>]) \<and>
   GetItems (sampleView 5 10 ScrollBarNever
            [sampleItem 1 3 False, \<lparr>Item = None, FixedSize = 2, Focus = False\<rparr>]) ! 1 = None \<and>
   Draw sampleEnv (sampleView 5 10 ScrollBarNever
            [sampleItem 1 3 False, \<lparr>Item = None, FixedSize = 2, Focus = False\<rparr>]) =
     Inl NilPointerDereference"
proof -
  let ?f = "sampleView 5 10 ScrollBarNever [sampleItem 1 3 False]"
  let ?g = "sampleView 5 10 ScrollBarNever
            [sampleItem 1 3 False, \<lparr>Item = None, FixedSize = 2, Focus = False\<rparr>]"
  let ?h = "sampleView 5 10 ScrollBarNever [sampleItem 1 3 False, sampleItem 9 2 False]"
  have h: "(0::int) \<le> 1" "1 \<le> int (length (items ?f))" by (simp_all add: sample_defs)
  note t = AddItemAtIndex_stores_argument [OF h, of "Some 9" 2 False 7 sampleEnv]
  note u = AddItemAtIndex_stores_argument [OF h, of None 2 False 7 sampleEnv]
  have a9: "AddItemAtIndex 1 (Some 9) 2 False ?f = Inr ?h"
    by (simp add: AddItemAtIndex_def sample_defs)
  from t have "\<forall>f'. AddItemAtIndex 1 (Some 9) 2 False ?f = Inr f' \<longrightarrow>
            GetItems f' ! nat 1 = Some 9 \<and> length (GetItems f') = Suc (length (items ?f))"
    by (elim conjE)
  with a9 have "GetItems ?h ! nat 1 = Some 9 \<and> length (GetItems ?h) = Suc (length (items ?f))"
    by (elim allE impE)
  then have g9: "GetItems ?h ! 1 = Some 9" by simp
  have an: "AddItemAtIndex 1 None 2 False ?f = Inr ?g"
    by (simp add: AddItemAtIndex_def sample_defs)
  from u have "\<forall>f'. AddItemAtIndex 1 None 2 False ?f = Inr f' \<longrightarrow>
            GetItems f' ! nat 1 = None \<and> length (GetItems f') = Suc (length (items ?f))"
    by (elim conjE)
  with an have "GetItems ?g ! nat 1 = None \<and> length (GetItems ?g) = Suc (length (items ?f))"
    by (elim allE impE)
  then have gn: "GetItems ?g ! 1 = None" by simp
  from u have "\<forall>f'. AddItemAtIndex 1 None 2 False ?f = Inr f' \<longrightarrow>
            visible (box f') \<longrightarrow> \<not> skipsItem sampleEnv f' (nat 1) \<longrightarrow>
            Draw sampleEnv f' = Inl NilPointerDereference"
    by (elim conjE)
  moreover have "visible (box ?g)" by (simp add: sample_defs)
  moreover have "\<not> skipsItem sampleEnv ?g (nat 1)" by code_simp
  ultimately have d: "Draw sampleEnv ?g = Inl NilPointerDereference"
    using an by (elim allE impE)
  from h a9 g9 an gn d show ?thesis by (intro conjI)
qed

subsection \<open>Focus delegation\<close>

lemma focusScan_first:
  "(\<exists>pre item post p. its = pre @ item # post \<and>
      (\<forall>j\<in>set pre. Item j = None \<or> \<not> Focus j) \<and>
      Item item = Some p \<and> Focus item \<and> focusScan its = [p]) \<or>
   ((\<forall>j\<in>set its. Item j = None \<or> \<not> Focus j) \<and> focusScan its = [])"
proof (induction its)
  case Nil
  then show ?case by simp
next
  case (Cons a its)
  show ?case
  proof (cases "Item a \<noteq> None \<and> Focus a")
    case True
    then obtain p where p: "Item a = Some p" by auto
    with True have "a # its = [] @ a # its \<and> (\<forall>j\<in>set []. Item j = None \<or> \<not> Focus j) \<and>
        Item a = Some p \<and> Focus a \<and> focusScan (a # its) = [p]"
      by simp
    then show ?thesis by blast
  next
    case False
    then have scan: "focusScan (a # its) = focusScan its"
      by (cases "Item a") auto
    from Cons.IH show ?thesis
    proof
      assume "\<exists>pre item post p. its = pre @ item # post \<and>
        (\<forall>j\<in>set pre. Item j = None \<or> \<not> Focus j) \<and>
        Item item = Some p \<and> Focus item \<and> focusScan its = [p]"
      then obtain pre item post p where
        "its = pre @ item # post" "\<forall>j\<in>set pre. Item j = None \<or> \<not> Focus j"
        "Item item = Some p" "Focus item" "focusScan its = [p]"
        by blast
      with False scan have "a # its = (a # pre) @ item # post \<and>
        (\<forall>j\<in>set (a # pre). Item j = None \<or> \<not> Focus j) \<and>
        Item item = Some p \<and> Focus item \<and> focusScan (a # its) = [p]"
        by simp
      then show ?thesis by blast
    next
      assume "(\<forall>j\<in>set its. Item j = None \<or> \<not> Focus j) \<and> focusScan its = []"
      with False scan show ?thesis by simp
    qed
  qed
qed

text \<open>
  C7, as amended. \<^verbatim>\<open>Focus(delegate)\<close> scans the items in order and calls
  \<open>delegate\<close> exactly once, with the primitive of the first item whose primitive is
  not nil and whose focus flag is set; if there is no such item, \<open>delegate\<close> is not
  called. (For the items \<open>[A(focus=false), B(focus=true), C(focus=false)]\<close> of the
  claim the call is \<open>delegate(B)\<close>, as the witness evaluates.)
\<close>

theorem Focus_delegates_to_first_candidate:
  "(\<exists>pre item post p. items f = pre @ item # post \<and>
      (\<forall>j\<in>set pre. Item j = None \<or> \<not> Focus j) \<and>
      Item item = Some p \<and> Focus item \<and> ScrollView_Focus f = [p]) \<or>
   ((\<forall>j\<in>set (items f). Item j = None \<or> \<not> Focus j) \<and> ScrollView_Focus f = [])"
  unfolding ScrollView_Focus_def by (rule focusScan_first)

theorem Focus_delegates_to_first_candidate_witness:
  "ScrollView_Focus (sampleView 5 10 ScrollBarAuto
      [sampleItem 1 3 False, sampleItem 2 3 True, sampleItem 3 3 False]) = [2] \<and>
   items (sampleView 5 10 ScrollBarAuto
      [sampleItem 1 3 False, sampleItem 2 3 True, sampleItem 3 3 False]) =
     [sampleItem 1 3 False] @ sampleItem 2 3 True # [sampleItem 3 3 False]"
proof -
  let ?f = "sampleView 5 10 ScrollBarAuto
      [sampleItem 1 3 False, sampleItem 2 3 True, sampleItem 3 3 False]"
  have neg: "\<not> (\<forall>j\<in>set (items ?f). Item j = None \<or> \<not> Focus j)"
    by (simp add: sampleView_def sampleItem_def)
  from Focus_delegates_to_first_candidate [of ?f]
  have "length (ScrollView_Focus ?f) = 1"
  proof
    assume "\<exists>pre item post p. items ?f = pre @ item # post \<and>
      (\<forall>j\<in>set pre. Item j = None \<or> \<not> Focus j) \<and>
      Item item = Some p \<and> Focus item \<and> ScrollView_Focus ?f = [p]"
    then obtain p where "ScrollView_Focus ?f = [p]" by (elim exE conjE)
    then show ?thesis by simp
  next
    assume "(\<forall>j\<in>set (items ?f). Item j = None \<or> \<not> Focus j) \<and> ScrollView_Focus ?f = []"
    with neg show ?thesis by (elim conjE notE)
  qed
  moreover have "hd (ScrollView_Focus ?f) = 2" by code_simp
  ultimately have "ScrollView_Focus ?f = [2]" by (cases "ScrollView_Focus ?f") simp_all
  then show ?thesis by (simp add: sampleView_def)
qed

text \<open>
  The claim as stated fails when an item of nil primitive has its focus flag set:
  \<open>delegate\<close> is then called with a later item, not with the first whose flag is
  set, and it is not called at all when the nil item is the only one with the flag.
\<close>

theorem Focus_delegates_to_first_candidate_counterexample:
  "Focus (hd (items (sampleView 5 10 ScrollBarAuto
      [\<lparr>Item = None, FixedSize = 1, Focus = True\<rparr>, sampleItem 2 3 True]))) \<and>
   ScrollView_Focus (sampleView 5 10 ScrollBarAuto
      [\<lparr>Item = None, FixedSize = 1, Focus = True\<rparr>, sampleItem 2 3 True]) = [2] \<and>
   ScrollView_Focus (sampleView 5 10 ScrollBarAuto
      [\<lparr>Item = None, FixedSize = 1, Focus = True\<rparr>]) = []"
  by code_simp

subsection \<open>Mouse events\<close>

lemma passMouse_first_consumer:
  "(\<exists>pre c post. List.map_filter Item its = pre @ c # post \<and>
      (\<forall>p\<in>set pre. \<not> fst (h p a e)) \<and> fst (h c a e) \<and>
      passMouse h a e its res = (h c a e, pre @ [c])) \<or>
   ((\<forall>p\<in>set (List.map_filter Item its). \<not> fst (h p a e)) \<and>
      snd (passMouse h a e its res) = List.map_filter Item its \<and>
      fst (passMouse h a e its res) =
        (if List.map_filter Item its = [] then res
         else h (last (List.map_filter Item its)) a e))"
proof (induction its arbitrary: res)
  case Nil
  then show ?case by (simp add: map_filter_simps)
next
  case (Cons item its)
  show ?case
  proof (cases "Item item")
    case None
    then have mf: "List.map_filter Item (item # its) = List.map_filter Item its"
      and pm: "passMouse h a e (item # its) res = passMouse h a e its res"
      by (simp_all add: map_filter_simps)
    from Cons.IH [of res] show ?thesis unfolding mf pm .
  next
    case (Some p)
    then have mf: "List.map_filter Item (item # its) = p # List.map_filter Item its"
      by (simp add: map_filter_simps)
    show ?thesis
    proof (cases "fst (h p a e)")
      case True
      with Some have "passMouse h a e (item # its) res = (h p a e, [] @ [p])"
        by (simp add: Let_def)
      with True mf have "List.map_filter Item (item # its) = [] @ p # List.map_filter Item its \<and>
        (\<forall>q\<in>set []. \<not> fst (h q a e)) \<and> fst (h p a e) \<and>
        passMouse h a e (item # its) res = (h p a e, [] @ [p])"
        by simp
      then show ?thesis by blast
    next
      case False
      with Some have pm: "passMouse h a e (item # its) res =
          (fst (passMouse h a e its (h p a e)), p # snd (passMouse h a e its (h p a e)))"
        by (simp add: Let_def split: prod.splits)
      from Cons.IH [of "h p a e"] show ?thesis
      proof
        assume "\<exists>pre c post. List.map_filter Item its = pre @ c # post \<and>
          (\<forall>p\<in>set pre. \<not> fst (h p a e)) \<and> fst (h c a e) \<and>
          passMouse h a e its (h p a e) = (h c a e, pre @ [c])"
        then obtain pre c post where
          "List.map_filter Item its = pre @ c # post" "\<forall>p\<in>set pre. \<not> fst (h p a e)"
          "fst (h c a e)" "passMouse h a e its (h p a e) = (h c a e, pre @ [c])"
          by blast
        with False mf pm have "List.map_filter Item (item # its) = (p # pre) @ c # post \<and>
          (\<forall>q\<in>set (p # pre). \<not> fst (h q a e)) \<and> fst (h c a e) \<and>
          passMouse h a e (item # its) res = (h c a e, (p # pre) @ [c])"
          by simp
        then show ?thesis by blast
      next
        assume "(\<forall>q\<in>set (List.map_filter Item its). \<not> fst (h q a e)) \<and>
          snd (passMouse h a e its (h p a e)) = List.map_filter Item its \<and>
          fst (passMouse h a e its (h p a e)) =
            (if List.map_filter Item its = [] then h p a e
             else h (last (List.map_filter Item its)) a e)"
        with False mf pm show ?thesis by simp
      qed
    qed
  qed
qed

lemma MouseHandler_other:
  assumes "InRect env (box f) (Position event)"
  shows "consumed (MouseHandler env f (MouseOther n) event) =
           fst (fst (passMouse (ChildMouseHandler env) (MouseOther n) event (items f) (False, None)))"
    and "capture (MouseHandler env f (MouseOther n) event) =
           snd (fst (passMouse (ChildMouseHandler env) (MouseOther n) event (items f) (False, None)))"
    and "called (MouseHandler env f (MouseOther n) event) =
           snd (passMouse (ChildMouseHandler env) (MouseOther n) event (items f) (False, None))"
    and "after (MouseHandler env f (MouseOther n) event) = f"
  using assms by (simp_all add: MouseHandler_def split: prod.splits)

text \<open>
  C6. A mouse event inside the rectangle that is not a wheel-up or wheel-down event is
  offered to the non-nil children in item order. If some child consumes it, the
  children called are those in front of the first consumer and the first consumer
  itself, and the handler returns the consumer's result (consumed, with its capture);
  no later sibling is called. If no child consumes it, every child is called and the
  event is reported as not consumed. The view itself is unchanged.
\<close>

theorem MouseHandler_first_consumer_wins:
  assumes "InRect env (box f) (Position event)"
  shows "after (MouseHandler env f (MouseOther n) event) = f \<and>
     ((\<exists>pre c post. children f = pre @ c # post \<and>
         (\<forall>p\<in>set pre. \<not> fst (ChildMouseHandler env p (MouseOther n) event)) \<and>
         fst (ChildMouseHandler env c (MouseOther n) event) \<and>
         called (MouseHandler env f (MouseOther n) event) = pre @ [c] \<and>
         consumed (MouseHandler env f (MouseOther n) event) \<and>
         capture (MouseHandler env f (MouseOther n) event) =
           snd (ChildMouseHandler env c (MouseOther n) event)) \<or>
      ((\<forall>p\<in>set (children f). \<not> fst (ChildMouseHandler env p (MouseOther n) event)) \<and>
         called (MouseHandler env f (MouseOther n) event) = children f \<and>
         \<not> consumed (MouseHandler env f (MouseOther n) event)))"
proof -
  let ?h = "ChildMouseHandler env"
  let ?a = "MouseOther n"
  let ?pm = "passMouse ?h ?a event (items f) (False, None)"
  let ?res = "MouseHandler env f ?a event"
  note mh = MouseHandler_other [OF assms, of n]
  from passMouse_first_consumer [of "items f" ?h ?a event "(False, None)"]
  have "(\<exists>pre c post. children f = pre @ c # post \<and>
         (\<forall>p\<in>set pre. \<not> fst (?h p ?a event)) \<and> fst (?h c ?a event) \<and>
         called ?res = pre @ [c] \<and> consumed ?res \<and> capture ?res = snd (?h c ?a event)) \<or>
      ((\<forall>p\<in>set (children f). \<not> fst (?h p ?a event)) \<and>
         called ?res = children f \<and> \<not> consumed ?res)"
  proof
    assume "\<exists>pre c post. List.map_filter Item (items f) = pre @ c # post \<and>
      (\<forall>p\<in>set pre. \<not> fst (?h p ?a event)) \<and> fst (?h c ?a event) \<and>
      ?pm = (?h c ?a event, pre @ [c])"
    then obtain pre c post where
      k: "List.map_filter Item (items f) = pre @ c # post"
      and np: "\<forall>p\<in>set pre. \<not> fst (?h p ?a event)"
      and c: "fst (?h c ?a event)"
      and pm: "?pm = (?h c ?a event, pre @ [c])"
      by (elim exE conjE)
    from k have "children f = pre @ c # post" by (simp add: children_def)
    moreover from mh(3) pm have "called ?res = pre @ [c]" by simp
    moreover from mh(1) pm c have "consumed ?res" by simp
    moreover from mh(2) pm have "capture ?res = snd (?h c ?a event)" by simp
    ultimately have "children f = pre @ c # post \<and>
         (\<forall>p\<in>set pre. \<not> fst (?h p ?a event)) \<and> fst (?h c ?a event) \<and>
         called ?res = pre @ [c] \<and> consumed ?res \<and> capture ?res = snd (?h c ?a event)"
      using np c by (intro conjI)
    then show ?thesis by (intro disjI1 exI)
  next
    assume n: "(\<forall>p\<in>set (List.map_filter Item (items f)). \<not> fst (?h p ?a event)) \<and>
      snd ?pm = List.map_filter Item (items f) \<and>
      fst ?pm = (if List.map_filter Item (items f) = [] then (False, None)
                 else ?h (last (List.map_filter Item (items f))) ?a event)"
    then have all: "\<forall>p\<in>set (children f). \<not> fst (?h p ?a event)"
      by (simp add: children_def)
    from n mh(3) have cl: "called ?res = children f" by (simp add: children_def)
    have "\<not> fst (fst ?pm)"
    proof (cases "List.map_filter Item (items f) = []")
      case True
      with n show ?thesis by simp
    next
      case False
      then have "last (List.map_filter Item (items f)) \<in> set (List.map_filter Item (items f))"
        by (rule last_in_set)
      with n False show ?thesis by simp
    qed
    with mh(1) have "\<not> consumed ?res" by simp
    with all cl show ?thesis by (intro disjI2 conjI)
  qed
  with mh(4) show ?thesis by (intro conjI)
qed

theorem MouseHandler_first_consumer_wins_witness:
  "InRect sampleEnv (box (sampleView 5 10 ScrollBarAuto
       [sampleItem 1 3 False, sampleItem 2 3 False, sampleItem 3 3 False]))
     (Position \<lparr>Position = (1, 1)\<rparr>) \<and>
   children (sampleView 5 10 ScrollBarAuto
       [sampleItem 1 3 False, sampleItem 2 3 False, sampleItem 3 3 False]) = [1] @ 2 # [3] \<and>
   called (MouseHandler sampleEnv (sampleView 5 10 ScrollBarAuto
       [sampleItem 1 3 False, sampleItem 2 3 False, sampleItem 3 3 False])
     (MouseOther 0) \<lparr>Position = (1, 1)\<rparr>) = [1, 2] \<and>
   consumed (MouseHandler sampleEnv (sampleView 5 10 ScrollBarAuto
       [sampleItem 1 3 False, sampleItem 2 3 False, sampleItem 3 3 False])
     (MouseOther 0) \<lparr>Position = (1, 1)\<rparr>) \<and>
   after (MouseHandler sampleEnv (sampleView 5 10 ScrollBarAuto
       [sampleItem 1 3 False, sampleItem 2 3 False, sampleItem 3 3 False])
     (MouseOther 0) \<lparr>Position = (1, 1)\<rparr>) =
     sampleView 5 10 ScrollBarAuto
       [sampleItem 1 3 False, sampleItem 2 3 False, sampleItem 3 3 False]"
proof -
  let ?f = "sampleView 5 10 ScrollBarAuto
       [sampleItem 1 3 False, sampleItem 2 3 False, sampleItem 3 3 False]"
  let ?e = "\<lparr>Position = (1, 1)\<rparr>"
  have inr: "InRect sampleEnv (box ?f) (Position ?e)" by (simp add: sample_defs)
  from MouseHandler_first_consumer_wins [OF inr, of 0]
  have aft: "after (MouseHandler sampleEnv ?f (MouseOther 0) ?e) = ?f" by (elim conjE)
  have ch: "children ?f = [1] @ 2 # [3]"
    by (simp add: children_def sample_defs map_filter_simps)
  have cl: "called (MouseHandler sampleEnv ?f (MouseOther 0) ?e) = [1, 2]" by code_simp
  have co: "consumed (MouseHandler sampleEnv ?f (MouseOther 0) ?e)" by code_simp
  from inr ch cl co aft show ?thesis by (intro conjI)
qed

text \<open>
  C5, as amended. For a wheel event inside the rectangle: wheel-up sets the offset
  to \<open>max 0 (offset - 1)\<close> at once, wheel-down sets it to \<open>offset + 1\<close> with no upper
  clamp in the handler (both as long as the step stays within the integer range;
  the exact result wraps around); both report the event as consumed, with no capture,
  and call no child. The upper clamp comes with the next \<^verbatim>\<open>Draw\<close> and only for
  content taller than the viewport: there it brings the offset back to
  \<open>contentExtent - viewportExtent\<close>, so a wheel-down at that ceiling leaves the offset
  after the next \<^verbatim>\<open>Draw\<close> where it was. For content that fits the viewport there is
  no ceiling: the offset after the next \<^verbatim>\<open>Draw\<close> is \<open>offset + 1\<close>.
\<close>

theorem MouseHandler_wheel:
  assumes "InRect env (box f) (Position event)"
  shows "MouseHandler env f MouseScrollUp event =
           \<lparr>consumed = True, capture = None, called = [],
            after = f\<lparr>heightOffset := (if wrap (heightOffset f - 1) < 0 then 0
                                       else wrap (heightOffset f - 1))\<rparr>\<rparr> \<and>
         (inRange (heightOffset f - 1) \<longrightarrow>
            after (MouseHandler env f MouseScrollUp event) =
              f\<lparr>heightOffset := max 0 (heightOffset f - 1)\<rparr>) \<and>
         MouseHandler env f MouseScrollDown event =
           \<lparr>consumed = True, capture = None, called = [],
            after = f\<lparr>heightOffset := wrap (heightOffset f + 1)\<rparr>\<rparr> \<and>
         (inRange (heightOffset f + 1) \<longrightarrow>
            after (MouseHandler env f MouseScrollDown event) =
              f\<lparr>heightOffset := heightOffset f + 1\<rparr>) \<and>
         (\<forall>r. visible (box f) \<longrightarrow> inRange (heightOffset f + 1) \<longrightarrow>
            clampInRange env (after (MouseHandler env f MouseScrollDown event)) \<longrightarrow>
            Draw env (after (MouseHandler env f MouseScrollDown event)) = Inr r \<longrightarrow>
            heightOffset (view r) =
              (if contentExtent f > visibleheight env f
               then min (heightOffset f + 1) (contentExtent f - visibleheight env f)
               else heightOffset f + 1)) \<and>
         (\<forall>r. visible (box f) \<longrightarrow> inRange (heightOffset f + 1) \<longrightarrow>
            clampInRange env (after (MouseHandler env f MouseScrollDown event)) \<longrightarrow>
            contentExtent f > visibleheight env f \<longrightarrow>
            heightOffset f = contentExtent f - visibleheight env f \<longrightarrow>
            Draw env (after (MouseHandler env f MouseScrollDown event)) = Inr r \<longrightarrow>
            heightOffset (view r) = heightOffset f) \<and>
         ((\<forall>item\<in>set (items f). Item item \<noteq> None) \<longrightarrow>
            (\<exists>r. Draw env (after (MouseHandler env f MouseScrollDown event)) = Inr r))"
proof -
  let ?down = "ScrollTo (wrap (heightOffset f + 1)) 0 f"
  have up: "MouseHandler env f MouseScrollUp event =
           \<lparr>consumed = True, capture = None, called = [],
            after = f\<lparr>heightOffset := (if wrap (heightOffset f - 1) < 0 then 0
                                       else wrap (heightOffset f - 1))\<rparr>\<rparr>"
    using assms by (simp add: MouseHandler_def)
  have up': "after (MouseHandler env f MouseScrollUp event) =
              f\<lparr>heightOffset := max 0 (heightOffset f - 1)\<rparr>"
    if "inRange (heightOffset f - 1)"
    using up wrap_id [OF that] by (simp add: max_def)
  have down: "MouseHandler env f MouseScrollDown event =
           \<lparr>consumed = True, capture = None, called = [],
            after = f\<lparr>heightOffset := wrap (heightOffset f + 1)\<rparr>\<rparr>"
    using assms by (simp add: MouseHandler_def)
  then have aft: "after (MouseHandler env f MouseScrollDown event) = ?down"
    by (simp add: ScrollTo_def)
  have down': "after (MouseHandler env f MouseScrollDown event) =
              f\<lparr>heightOffset := heightOffset f + 1\<rparr>"
    if "inRange (heightOffset f + 1)"
    using down wrap_id [OF that] by simp
  have drawn: "heightOffset (view r) =
              (if contentExtent f > visibleheight env f
               then min (heightOffset f + 1) (contentExtent f - visibleheight env f)
               else heightOffset f + 1)"
    if "visible (box f)" "inRange (heightOffset f + 1)"
       "clampInRange env (after (MouseHandler env f MouseScrollDown event))"
       "Draw env (after (MouseHandler env f MouseScrollDown event)) = Inr r"
    for r
  proof -
    from that have v: "visible (box ?down)" and d: "Draw env ?down = Inr r"
      and c: "clampInRange env ?down"
      by (simp_all add: aft ScrollTo_simps)
    have "heightOffset (view r) = clampedOffset env ?down" by (rule Draw_offset [OF v d])
    also have "\<dots> = (if contentExtent f > visibleheight env f
               then min (wrap (heightOffset f + 1)) (contentExtent f - visibleheight env f)
               else wrap (heightOffset f + 1))"
      using clampedOffset_eq [OF c] by (simp add: ScrollTo_simps)
    finally show ?thesis using wrap_id [OF that(2)] by simp
  qed
  have ceiling: "heightOffset (view r) = heightOffset f"
    if "visible (box f)" "inRange (heightOffset f + 1)"
       "clampInRange env (after (MouseHandler env f MouseScrollDown event))"
       "contentExtent f > visibleheight env f"
       "heightOffset f = contentExtent f - visibleheight env f"
       "Draw env (after (MouseHandler env f MouseScrollDown event)) = Inr r" for r
    using drawn [OF that(1,2,3,6)] that(4,5) by simp
  have ret: "\<exists>r. Draw env (after (MouseHandler env f MouseScrollDown event)) = Inr r"
    if "\<forall>item\<in>set (items f). Item item \<noteq> None"
    unfolding aft using that by (intro Draw_returns) (simp add: ScrollTo_simps)
  have c2: "inRange (heightOffset f - 1) \<longrightarrow>
            after (MouseHandler env f MouseScrollUp event) =
              f\<lparr>heightOffset := max 0 (heightOffset f - 1)\<rparr>"
    by (intro impI) (rule up')
  have c4: "inRange (heightOffset f + 1) \<longrightarrow>
            after (MouseHandler env f MouseScrollDown event) =
              f\<lparr>heightOffset := heightOffset f + 1\<rparr>"
    by (intro impI) (rule down')
  have c5: "\<forall>r. visible (box f) \<longrightarrow> inRange (heightOffset f + 1) \<longrightarrow>
            clampInRange env (after (MouseHandler env f MouseScrollDown event)) \<longrightarrow>
            Draw env (after (MouseHandler env f MouseScrollDown event)) = Inr r \<longrightarrow>
            heightOffset (view r) =
              (if contentExtent f > visibleheight env f
               then min (heightOffset f + 1) (contentExtent f - visibleheight env f)
               else heightOffset f + 1)"
    by (intro allI impI) (rule drawn)
  have c6: "\<forall>r. visible (box f) \<longrightarrow> inRange (heightOffset f + 1) \<longrightarrow>
            clampInRange env (after (MouseHandler env f MouseScrollDown event)) \<longrightarrow>
            contentExtent f > visibleheight env f \<longrightarrow>
            heightOffset f = contentExtent f - visibleheight env f \<longrightarrow>
            Draw env (after (MouseHandler env f MouseScrollDown event)) = Inr r \<longrightarrow>
            heightOffset (view r) = heightOffset f"
    by (intro allI impI) (rule ceiling)
  have c7: "(\<forall>item\<in>set (items f). Item item \<noteq> None) \<longrightarrow>
            (\<exists>r. Draw env (after (MouseHandler env f MouseScrollDown event)) = Inr r)"
    by (intro impI) (rule ret)
  from up c2 down c4 c5 c6 c7 show ?thesis by (intro conjI)
qed

theorem MouseHandler_wheel_witness:
  "InRect sampleEnv (box (ScrollTo 20 0 (sampleView 5 10 ScrollBarAuto
       [sampleItem 1 10 False, sampleItem 2 10 False, sampleItem 3 10 False])))
     (Position \<lparr>Position = (1, 1)\<rparr>) \<and>
   inRange (20 - 1) \<and> inRange (20 + 1) \<and> inRange (0 - 1) \<and>
   heightOffset (after (MouseHandler sampleEnv (ScrollTo 20 0 (sampleView 5 10 ScrollBarAuto
       [sampleItem 1 10 False, sampleItem 2 10 False, sampleItem 3 10 False]))
     MouseScrollUp \<lparr>Position = (1, 1)\<rparr>)) = 19 \<and>
   heightOffset (after (MouseHandler sampleEnv (ScrollTo 20 0 (sampleView 5 10 ScrollBarAuto
       [sampleItem 1 10 False, sampleItem 2 10 False, sampleItem 3 10 False]))
     MouseScrollDown \<lparr>Position = (1, 1)\<rparr>)) = 21 \<and>
   heightOffset (after (MouseHandler sampleEnv (sampleView 5 10 ScrollBarAuto
       [sampleItem 1 10 False, sampleItem 2 10 False, sampleItem 3 10 False])
     MouseScrollUp \<lparr>Position = (1, 1)\<rparr>)) = 0 \<and>
   clampInRange sampleEnv (after (MouseHandler sampleEnv (ScrollTo 20 0 (sampleView 5 10
       ScrollBarAuto [sampleItem 1 10 False, sampleItem 2 10 False, sampleItem 3 10 False]))
     MouseScrollDown \<lparr>Position = (1, 1)\<rparr>)) \<and>
   (\<exists>r. Draw sampleEnv (after (MouseHandler sampleEnv (ScrollTo 20 0 (sampleView 5 10
       ScrollBarAuto [sampleItem 1 10 False, sampleItem 2 10 False, sampleItem 3 10 False]))
     MouseScrollDown \<lparr>Position = (1, 1)\<rparr>)) = Inr r \<and> heightOffset (view r) = 20)"
proof -
  let ?u = "sampleView 5 10 ScrollBarAuto
       [sampleItem 1 10 False, sampleItem 2 10 False, sampleItem 3 10 False]"
  let ?f = "ScrollTo 20 0 ?u"
  let ?e = "\<lparr>Position = (1, 1)\<rparr>"
  have inr: "InRect sampleEnv (box ?f) (Position ?e)" by (simp add: sample_defs)
  have inru: "InRect sampleEnv (box ?u) (Position ?e)" by (simp add: sample_defs)
  have rg: "inRange (20 - 1)" "inRange (20 + 1)" "inRange (0 - 1)"
    by (simp_all add: inRange_def)
  have hf: "heightOffset ?f = 20" "heightOffset ?u = 0" by (simp_all add: sample_defs)
  note t = MouseHandler_wheel [OF inr]
  note tu = MouseHandler_wheel [OF inru]
  from t have "inRange (heightOffset ?f - 1) \<longrightarrow>
            after (MouseHandler sampleEnv ?f MouseScrollUp ?e) =
              ?f\<lparr>heightOffset := max 0 (heightOffset ?f - 1)\<rparr>" by (elim conjE)
  with rg(1) have "after (MouseHandler sampleEnv ?f MouseScrollUp ?e) =
              ?f\<lparr>heightOffset := max 0 (heightOffset ?f - 1)\<rparr>" by (simp only: hf)
  then have up: "heightOffset (after (MouseHandler sampleEnv ?f MouseScrollUp ?e)) = 19"
    by (simp add: sample_defs)
  from t have "inRange (heightOffset ?f + 1) \<longrightarrow>
            after (MouseHandler sampleEnv ?f MouseScrollDown ?e) =
              ?f\<lparr>heightOffset := heightOffset ?f + 1\<rparr>" by (elim conjE)
  with rg(2) have "after (MouseHandler sampleEnv ?f MouseScrollDown ?e) =
              ?f\<lparr>heightOffset := heightOffset ?f + 1\<rparr>" by (simp only: hf)
  then have down: "heightOffset (after (MouseHandler sampleEnv ?f MouseScrollDown ?e)) = 21"
    by (simp add: sample_defs)
  from tu have "inRange (heightOffset ?u - 1) \<longrightarrow>
            after (MouseHandler sampleEnv ?u MouseScrollUp ?e) =
              ?u\<lparr>heightOffset := max 0 (heightOffset ?u - 1)\<rparr>" by (elim conjE)
  with rg(3) have "after (MouseHandler sampleEnv ?u MouseScrollUp ?e) =
              ?u\<lparr>heightOffset := max 0 (heightOffset ?u - 1)\<rparr>" by (simp only: hf)
  then have upu: "heightOffset (after (MouseHandler sampleEnv ?u MouseScrollUp ?e)) = 0"
    by (simp add: sample_defs)
  have cr: "clampInRange sampleEnv (after (MouseHandler sampleEnv ?f MouseScrollDown ?e))"
    by code_simp
  have n: "\<forall>item\<in>set (items ?f). Item item \<noteq> None" by (simp add: sample_defs)
  from t have "(\<forall>item\<in>set (items ?f). Item item \<noteq> None) \<longrightarrow>
            (\<exists>r. Draw sampleEnv (after (MouseHandler sampleEnv ?f MouseScrollDown ?e)) = Inr r)"
    by (elim conjE)
  with n obtain r where
    r: "Draw sampleEnv (after (MouseHandler sampleEnv ?f MouseScrollDown ?e)) = Inr r"
    by (elim impE exE)
  have vis: "visible (box ?f)" by (simp add: sample_defs)
  have rh: "inRange (heightOffset ?f + 1)" using rg(2) by (simp only: hf)
  have c: "contentExtent ?f > visibleheight sampleEnv ?f" by code_simp
  have h: "heightOffset ?f = contentExtent ?f - visibleheight sampleEnv ?f" by code_simp
  from t have "\<forall>r. visible (box ?f) \<longrightarrow> inRange (heightOffset ?f + 1) \<longrightarrow>
            clampInRange sampleEnv (after (MouseHandler sampleEnv ?f MouseScrollDown ?e)) \<longrightarrow>
            contentExtent ?f > visibleheight sampleEnv ?f \<longrightarrow>
            heightOffset ?f = contentExtent ?f - visibleheight sampleEnv ?f \<longrightarrow>
            Draw sampleEnv (after (MouseHandler sampleEnv ?f MouseScrollDown ?e)) = Inr r \<longrightarrow>
            heightOffset (view r) = heightOffset ?f"
    by (elim conjE)
  with vis rh cr c h r have "heightOffset (view r) = heightOffset ?f"
    by (elim allE impE)
  then have "heightOffset (view r) = 20" by (simp only: hf)
  with inr rg up down upu cr r show ?thesis by (intro conjI exI [of _ r])
qed

text \<open>
  The claim as stated fails. For content that fits the viewport (one item of size 3
  in a viewport of 10) the ceiling of the spec is 0, yet a wheel-down at offset 0
  followed by \<^verbatim>\<open>Draw\<close> leaves the offset 1, and one more leaves 2. And a wheel-down at
  the largest integer wraps around to the smallest instead of adding 1.
\<close>

theorem MouseHandler_wheel_counterexample:
  "InRect sampleEnv (box (sampleView 5 10 ScrollBarAuto [sampleItem 1 3 False]))
     (Position \<lparr>Position = (1, 1)\<rparr>) \<and>
   clamp 0 0 (max 0 (contentExtent (sampleView 5 10 ScrollBarAuto [sampleItem 1 3 False]) -
     visibleheight sampleEnv (sampleView 5 10 ScrollBarAuto [sampleItem 1 3 False]))) = 0 \<and>
   (case Draw sampleEnv (after (MouseHandler sampleEnv
        (sampleView 5 10 ScrollBarAuto [sampleItem 1 3 False])
        MouseScrollDown \<lparr>Position = (1, 1)\<rparr>)) of
      Inl e \<Rightarrow> None | Inr r \<Rightarrow> Some (heightOffset (view r))) = Some 1 \<and>
   (case Draw sampleEnv (after (MouseHandler sampleEnv
        (ScrollTo 1 0 (sampleView 5 10 ScrollBarAuto [sampleItem 1 3 False]))
        MouseScrollDown \<lparr>Position = (1, 1)\<rparr>)) of
      Inl e \<Rightarrow> None | Inr r \<Rightarrow> Some (heightOffset (view r))) = Some 2 \<and>
   heightOffset (after (MouseHandler sampleEnv
        (ScrollTo 9223372036854775807 0 (sampleView 5 10 ScrollBarAuto [sampleItem 1 3 False]))
        MouseScrollDown \<lparr>Position = (1, 1)\<rparr>)) = - 9223372036854775808"
  by code_simp

end
